theory Spec2Isabelle
  imports Main "HOL-Library.Sublist" "HOL-Library.Char_ord" "HOL-Library.List_Lexorder"
begin

section \<open>Strings as the code uses them\<close>

text \<open>
  Strings are byte lists. \<open>toLowerCase\<close> is modelled on ASCII letters, which is all that
  host names, header names, URL path names and directive keywords contain.
\<close>

definition lower_char :: "char \<Rightarrow> char" where
  "lower_char c =
     (case map_of (zip ''ABCDEFGHIJKLMNOPQRSTUVWXYZ'' ''abcdefghijklmnopqrstuvwxyz'') c of
        None \<Rightarrow> c
      | Some l \<Rightarrow> l)"

definition toLowerCase :: "string \<Rightarrow> string" where
  "toLowerCase s = map lower_char s"

text \<open>\<open>s.endsWith(t)\<close>, \<open>s.startsWith(t)\<close> and \<open>s.includes(t)\<close>.\<close>

definition endsWith :: "string \<Rightarrow> string \<Rightarrow> bool" where
  "endsWith s t = suffix t s"

definition startsWith :: "string \<Rightarrow> string \<Rightarrow> bool" where
  "startsWith s t = prefix t s"

fun str_includes :: "string \<Rightarrow> string \<Rightarrow> bool" where
  "str_includes [] t = (t = [])"
| "str_includes (c # s) t = (prefix t (c # s) \<or> str_includes s t)"

section \<open>The HTTP platform: requests, responses, the network\<close>

type_synonym headers = "(string \<times> string) list"

datatype redirect_mode = Follow | Manual

record request =
  req_url :: string
  req_headers :: headers
  req_redirect :: redirect_mode
  req_timeout :: "nat option"

text \<open>
  A response as the code reads it: the status, the header entries, and the body as
  \<open>res.text()\<close> yields it (\<open>None\<close> when reading the body throws).
\<close>

record response =
  res_status :: nat
  res_headers :: headers
  res_body :: "string option"

datatype error = NetworkError | InvalidURL | FetchFailed | ConcurrencyError

text \<open>
  The global \<open>fetch\<close>: one request against the world \<open>'w\<close> (the servers, the clock,
  everything outside the process). It returns a response or throws (\<open>Inl\<close>: network
  failure, timeout, unusable URL), and leaves a new world.
\<close>

type_synonym 'w network = "request \<Rightarrow> 'w \<Rightarrow> (error + response) \<times> 'w"

text \<open>\<open>headers.get(name)\<close>: the values stored under the name, joined by ", ".\<close>

fun join_values :: "string list \<Rightarrow> string" where
  "join_values [] = []"
| "join_values [v] = v"
| "join_values (v # vs) = v @ '', '' @ join_values vs"

definition header_values :: "headers \<Rightarrow> string \<Rightarrow> string list" where
  "header_values hs name = map snd (filter (\<lambda>kv. toLowerCase (fst kv) = toLowerCase name) hs)"

definition headers_get :: "headers \<Rightarrow> string \<Rightarrow> string option" where
  "headers_get hs name =
     (case header_values hs name of [] \<Rightarrow> None | vs \<Rightarrow> Some (join_values vs))"

record RedirectHop =
  hop_from :: string
  hop_to :: string
  hop_status :: nat

text \<open>The object \<open>{ res, finalUrl, redirectChain }\<close> both fetchers return.\<close>

record res_info =
  ri_res :: response
  ri_finalUrl :: string
  ri_redirectChain :: "RedirectHop list"

section \<open>crawler/crawl.ts: the redirect-following fetcher\<close>

definition BROWSER_UA :: string where
  "BROWSER_UA = ''Mozilla/5.0 (Windows NT 10.0; Win64; x64) AppleWebKit/537.36 (KHTML, like Gecko) Chrome/124 Safari/537.36''"

definition BLOCKED_STATUSES :: "nat set" where
  "BLOCKED_STATUSES = {403, 406, 409, 410, 429, 451, 503}"

definition REDIRECT_STATUSES :: "nat set" where
  "REDIRECT_STATUSES = {301, 302, 303, 307, 308}"

definition fetchOnce :: "'w network \<Rightarrow> string \<Rightarrow> string \<Rightarrow> nat \<Rightarrow> 'w \<Rightarrow> (error + response) \<times> 'w" where
  "fetchOnce net url ua timeoutMs w =
     net \<lparr>req_url = url,
          req_headers =
            [(''User-Agent'', ua),
             (''accept'', ''text/html,application/xhtml+xml,application/xml;q=0.9,*/*;q=0.8''),
             (''accept-language'', ''en-US,en;q=0.9,es;q=0.8'')],
          req_redirect = Manual,
          req_timeout = Some timeoutMs\<rparr> w"

text \<open>
  The \<open>while\<close> loop of \<open>chain\<close>. The argument \<open>safety\<close> is the counter before the test
  \<open>safety-- > 0\<close>; \<open>resolve loc cur\<close> is \<open>new URL(loc, cur).toString()\<close>, \<open>None\<close> when the
  constructor throws. \<open>!loc\<close> holds for a missing header and for an empty value.
\<close>

fun chain_loop ::
  "'w network \<Rightarrow> (string \<Rightarrow> string \<Rightarrow> string option) \<Rightarrow> nat \<Rightarrow> string \<Rightarrow>
   nat \<Rightarrow> string \<Rightarrow> response \<Rightarrow> RedirectHop list \<Rightarrow> 'w \<Rightarrow> (error + res_info) \<times> 'w" where
  "chain_loop net resolve timeoutMs useUA 0 currentUrl res hops w =
     (Inr \<lparr>ri_res = res, ri_finalUrl = currentUrl, ri_redirectChain = hops\<rparr>, w)"
| "chain_loop net resolve timeoutMs useUA (Suc safety) currentUrl res hops w =
     (if res_status res \<in> REDIRECT_STATUSES then
        (case headers_get (res_headers res) ''location'' of
           None \<Rightarrow> (Inr \<lparr>ri_res = res, ri_finalUrl = currentUrl, ri_redirectChain = hops\<rparr>, w)
         | Some loc \<Rightarrow>
             if loc = [] then
               (Inr \<lparr>ri_res = res, ri_finalUrl = currentUrl, ri_redirectChain = hops\<rparr>, w)
             else
               (case resolve loc currentUrl of
                  None \<Rightarrow> (Inl InvalidURL, w)
                | Some next \<Rightarrow>
                    (case fetchOnce net next useUA timeoutMs w of
                       (Inl e, w') \<Rightarrow> (Inl e, w')
                     | (Inr res', w') \<Rightarrow>
                         chain_loop net resolve timeoutMs useUA safety next res'
                           (hops @ [\<lparr>hop_from = currentUrl, hop_to = next,
                                     hop_status = res_status res\<rparr>]) w')))
      else (Inr \<lparr>ri_res = res, ri_finalUrl = currentUrl, ri_redirectChain = hops\<rparr>, w))"

definition chain ::
  "'w network \<Rightarrow> (string \<Rightarrow> string \<Rightarrow> string option) \<Rightarrow> nat \<Rightarrow> string \<Rightarrow> string \<Rightarrow>
   'w \<Rightarrow> (error + res_info) \<times> 'w" where
  "chain net resolve timeoutMs initialUrl useUA w =
     (case fetchOnce net initialUrl useUA timeoutMs w of
        (Inl e, w') \<Rightarrow> (Inl e, w')
      | (Inr res, w') \<Rightarrow> chain_loop net resolve timeoutMs useUA 10 initialUrl res [] w')"

definition fetchWithRedirects ::
  "'w network \<Rightarrow> (string \<Rightarrow> string \<Rightarrow> string option) \<Rightarrow> string \<Rightarrow> string \<Rightarrow> nat \<Rightarrow>
   'w \<Rightarrow> (error + res_info) \<times> 'w" where
  "fetchWithRedirects net resolve url ua timeoutMs w =
     (case chain net resolve timeoutMs url ua w of
        (Inr r1, w1) \<Rightarrow>
          if res_status (ri_res r1) \<in> BLOCKED_STATUSES \<and> ua \<noteq> BROWSER_UA then
            (case chain net resolve timeoutMs url BROWSER_UA w1 of
               (Inr r2, w2) \<Rightarrow> (Inr r2, w2)
             | (Inl e, w2) \<Rightarrow> (Inr r1, w2))
          else (Inr r1, w1)
      | (Inl e, w1) \<Rightarrow>
          if ua \<noteq> BROWSER_UA then chain net resolve timeoutMs url BROWSER_UA w1
          else (Inl FetchFailed, w1))"

section \<open>audit/indexability.ts: the auditor's own fetch\<close>

definition audit_fetch :: "'w network \<Rightarrow> string \<Rightarrow> string \<Rightarrow> 'w \<Rightarrow> (error + response) \<times> 'w" where
  "audit_fetch net url ua w =
     net \<lparr>req_url = url, req_headers = [(''User-Agent'', ua)], req_redirect = Manual,
          req_timeout = None\<rparr> w"

fun audit_loop ::
  "'w network \<Rightarrow> (string \<Rightarrow> string \<Rightarrow> string option) \<Rightarrow> string \<Rightarrow>
   nat \<Rightarrow> string \<Rightarrow> response \<Rightarrow> RedirectHop list \<Rightarrow> 'w \<Rightarrow> (error + res_info) \<times> 'w" where
  "audit_loop net resolve ua 0 currentUrl res hops w =
     (Inr \<lparr>ri_res = res, ri_finalUrl = currentUrl, ri_redirectChain = hops\<rparr>, w)"
| "audit_loop net resolve ua (Suc safety) currentUrl res hops w =
     (if res_status res \<in> REDIRECT_STATUSES then
        (case headers_get (res_headers res) ''location'' of
           None \<Rightarrow> (Inr \<lparr>ri_res = res, ri_finalUrl = currentUrl, ri_redirectChain = hops\<rparr>, w)
         | Some loc \<Rightarrow>
             if loc = [] then
               (Inr \<lparr>ri_res = res, ri_finalUrl = currentUrl, ri_redirectChain = hops\<rparr>, w)
             else
               (case resolve loc currentUrl of
                  None \<Rightarrow> (Inl InvalidURL, w)
                | Some next \<Rightarrow>
                    (case audit_fetch net next ua w of
                       (Inl e, w') \<Rightarrow> (Inl e, w')
                     | (Inr res', w') \<Rightarrow>
                         audit_loop net resolve ua safety next res'
                           (hops @ [\<lparr>hop_from = currentUrl, hop_to = next,
                                     hop_status = res_status res\<rparr>]) w')))
      else (Inr \<lparr>ri_res = res, ri_finalUrl = currentUrl, ri_redirectChain = hops\<rparr>, w))"

definition audit_fetchWithRedirects ::
  "'w network \<Rightarrow> (string \<Rightarrow> string \<Rightarrow> string option) \<Rightarrow> string \<Rightarrow> string \<Rightarrow>
   'w \<Rightarrow> (error + res_info) \<times> 'w" where
  "audit_fetchWithRedirects net resolve url ua w =
     (case audit_fetch net url ua w of
        (Inl e, w') \<Rightarrow> (Inl e, w')
      | (Inr res, w') \<Rightarrow> audit_loop net resolve ua 10 url res [] w')"

section \<open>The URL platform\<close>

text \<open>
  The parts of a parsed \<open>URL\<close> object the code reads and writes. \<open>query\<close> is the list
  behind \<open>searchParams\<close>, \<open>hash\<close> the fragment without its \<open>#\<close>.
\<close>

record url =
  protocol :: string
  hostname :: string
  port :: string
  pathname :: string
  query :: "(string \<times> string) list"
  hash :: string

text \<open>
  The constructor and serialiser of the platform, which the repository does not define:
  \<open>url_parse s\<close> is \<open>new URL(s)\<close> (\<open>None\<close> when it throws), \<open>url_href u\<close> is
  \<open>u.toString()\<close>, and \<open>url_resolve rel base\<close> is \<open>new URL(rel, base).toString()\<close>.
\<close>

record urlapi =
  url_parse :: "string \<Rightarrow> url option"
  url_href :: "url \<Rightarrow> string"
  url_resolve :: "string \<Rightarrow> string \<Rightarrow> string option"

text \<open>\<open>absolutize(base, href)\<close> of utils/url.ts: \<open>null\<close> when the constructor throws.\<close>

definition absolutize :: "urlapi \<Rightarrow> url \<Rightarrow> string \<Rightarrow> string option" where
  "absolutize api base href = url_resolve api href (url_href api base)"

text \<open>\<open>s.split(".")\<close> and \<open>parts.slice(-2).join(".")\<close>.\<close>

fun split_on :: "(char \<Rightarrow> bool) \<Rightarrow> string \<Rightarrow> string list" where
  "split_on p [] = [[]]"
| "split_on p (c # s) =
     (if p c then [] # split_on p s
      else (case split_on p s of [] \<Rightarrow> [[c]] | x # xs \<Rightarrow> (c # x) # xs))"

fun join_with :: "string \<Rightarrow> string list \<Rightarrow> string" where
  "join_with sep [] = []"
| "join_with sep [x] = x"
| "join_with sep (x # xs) = x @ sep @ join_with sep xs"

definition last_two :: "string list \<Rightarrow> string list" where
  "last_two xs = drop (length xs - 2) xs"

definition sameETLD1 :: "url \<Rightarrow> url \<Rightarrow> bool" where
  "sameETLD1 a b =
     (let aParts = split_on (\<lambda>c. c = CHR ''.'') (toLowerCase (hostname a));
          bParts = split_on (\<lambda>c. c = CHR ''.'') (toLowerCase (hostname b));
          aKey = join_with ''.'' (last_two aParts);
          bKey = join_with ''.'' (last_two bParts)
      in aKey = bKey)"

definition isInternal :: "url \<Rightarrow> url \<Rightarrow> bool \<Rightarrow> bool" where
  "isInternal base target includeSubdomains =
     (if \<not> sameETLD1 base target then False
      else if \<not> includeSubdomains then toLowerCase (hostname base) = toLowerCase (hostname target)
      else True)"

section \<open>audit/indexability.ts: directives\<close>

text \<open>A field is \<open>None\<close> when the key is absent from the object.\<close>

record RobotsDirectives =
  noindex :: "bool option"
  nofollow :: "bool option"
  noarchive :: "bool option"
  nosnippet :: "bool option"
  noimageindex :: "bool option"
  nocache :: "bool option"

definition no_directives :: RobotsDirectives where
  "no_directives = \<lparr>noindex = None, nofollow = None, noarchive = None, nosnippet = None,
     noimageindex = None, nocache = None\<rparr>"

text \<open>
  \<open>s.trim()\<close> on byte strings: the white space stripped is the ASCII one, bytes 9 to 13
  and 32. The other white space that \<open>String.prototype.trim\<close> strips (U+00A0, U+FEFF,
  the Unicode space separators and line separators) is not stripped here.
\<close>

definition is_space :: "char \<Rightarrow> bool" where
  "is_space c = (of_char c \<in> {9, 10, 11, 12, 13, 32 :: nat})"

definition trim :: "string \<Rightarrow> string" where
  "trim s = rev (dropWhile is_space (rev (dropWhile is_space s)))"

text \<open>The loop body of \<open>parseRobotsDirectives\<close>: one token sets at most one key.\<close>

definition set_directive :: "RobotsDirectives \<Rightarrow> string \<Rightarrow> RobotsDirectives" where
  "set_directive out t =
     (if t = ''noindex'' then out\<lparr>noindex := Some True\<rparr>
      else if t = ''nofollow'' then out\<lparr>nofollow := Some True\<rparr>
      else if t = ''noarchive'' then out\<lparr>noarchive := Some True\<rparr>
      else if t = ''nosnippet'' then out\<lparr>nosnippet := Some True\<rparr>
      else if t = ''noimageindex'' then out\<lparr>noimageindex := Some True\<rparr>
      else if t = ''nocache'' then out\<lparr>nocache := Some True\<rparr>
      else out)"

text \<open>
  \<open>raw.split(/[,;]+/g).map(trim, lower).filter(Boolean)\<close>: splitting at every single
  separator differs from splitting at runs only in empty pieces, which the filter drops.
\<close>

definition directive_tokens :: "string \<Rightarrow> string list" where
  "directive_tokens raw =
     filter (\<lambda>t. t \<noteq> [])
       (map (\<lambda>t. toLowerCase (trim t)) (split_on (\<lambda>c. c = CHR '','' \<or> c = CHR '';'') raw))"

definition parseRobotsDirectives :: "string option \<Rightarrow> RobotsDirectives option" where
  "parseRobotsDirectives raw =
     (case raw of
        None \<Rightarrow> None
      | Some r \<Rightarrow> if r = [] then None
                  else Some (foldl set_directive no_directives (directive_tokens r)))"

text \<open>\<open>a?.k\<close> under \<open>Boolean(...)\<close>: absent objects and absent keys are falsy.\<close>

definition truthy :: "RobotsDirectives option \<Rightarrow> (RobotsDirectives \<Rightarrow> bool option) \<Rightarrow> bool" where
  "truthy a k = (case a of None \<Rightarrow> False | Some d \<Rightarrow> (k d = Some True))"

definition mergeRobots ::
  "RobotsDirectives option \<Rightarrow> RobotsDirectives option \<Rightarrow> RobotsDirectives option" where
  "mergeRobots a b =
     (if a = None \<and> b = None then None
      else Some \<lparr>noindex = Some (truthy a noindex \<or> truthy b noindex),
                 nofollow = Some (truthy a nofollow \<or> truthy b nofollow),
                 noarchive = Some (truthy a noarchive \<or> truthy b noarchive),
                 nosnippet = Some (truthy a nosnippet \<or> truthy b nosnippet),
                 noimageindex = Some (truthy a noimageindex \<or> truthy b noimageindex),
                 nocache = Some (truthy a nocache \<or> truthy b nocache)\<rparr>)"

definition getAllXRobots :: "headers \<Rightarrow> string list" where
  "getAllXRobots hs = map snd (filter (\<lambda>kv. toLowerCase (fst kv) = ''x-robots-tag'') hs)"

section \<open>audit/indexability.ts: HTML signals and the audit\<close>

text \<open>
  What the selectors of the HTML library (cheerio, not part of the repository) find in a
  document, in document order; an attribute is \<open>None\<close> when the element lacks it:
  the \<open>href\<close> of each \<open>link[rel="canonical"]\<close>, the \<open>hreflang\<close> and \<open>href\<close> of each
  \<open>link[rel="alternate"][hreflang]\<close>, the \<open>content\<close> of each \<open>meta[name="robots"]\<close>,
  and the \<open>href\<close> of each \<open>a[href]\<close>.
\<close>

record html_doc =
  canonical_links :: "string option list"
  alternate_links :: "(string option \<times> string option) list"
  robots_metas :: "string option list"
  anchors :: "string option list"

text \<open>\<open>String(x ?? "")\<close>\<close>

definition attr_text :: "string option \<Rightarrow> string" where
  "attr_text a = (case a of None \<Rightarrow> [] | Some s \<Rightarrow> s)"

record HreflangLink =
  lang :: string
  href :: string

record html_signals =
  hs_canonical :: "string option"
  hs_hreflang :: "HreflangLink list"
  hs_metaRobots :: "RobotsDirectives option"
  hs_issues :: "string list"

text \<open>
  The canonical of \<open>extractHtmlSignals\<close>. \<open>undefined\<close> and \<open>null\<close> are both \<open>None\<close>: the
  callers only test \<open>if (canonical)\<close> and return \<open>canonical ?? null\<close>. \<open>new URL(baseUrl)\<close>
  is outside any \<open>try\<close>, so a base that does not parse is an error of the whole call.
\<close>

definition extract_canonical :: "urlapi \<Rightarrow> string option list \<Rightarrow> string \<Rightarrow> error + string option" where
  "extract_canonical api canonEls baseUrl =
     (case canonEls of
        [] \<Rightarrow> Inr None
      | el # _ \<Rightarrow>
          (let h = trim (attr_text el) in
           if h \<noteq> [] then
             (case url_parse api baseUrl of
                None \<Rightarrow> Inl InvalidURL
              | Some b \<Rightarrow> Inr (absolutize api b h))
           else Inr None))"

fun extract_hreflang ::
  "urlapi \<Rightarrow> string \<Rightarrow> (string option \<times> string option) list \<Rightarrow> error + HreflangLink list" where
  "extract_hreflang api baseUrl [] = Inr []"
| "extract_hreflang api baseUrl ((l, h) # els) =
     (let lg = trim (attr_text l); hr = trim (attr_text h) in
      if lg = [] \<or> hr = [] then extract_hreflang api baseUrl els
      else
        (case url_parse api baseUrl of
           None \<Rightarrow> Inl InvalidURL
         | Some b \<Rightarrow>
             (case extract_hreflang api baseUrl els of
                Inl e \<Rightarrow> Inl e
              | Inr rest \<Rightarrow>
                  (case absolutize api b hr of
                     None \<Rightarrow> Inr rest
                   | Some target \<Rightarrow>
                       if target = [] then Inr rest
                       else Inr (\<lparr>lang = lg, href = target\<rparr> # rest)))))"

definition merge_all :: "string list \<Rightarrow> RobotsDirectives option" where
  "merge_all vs = foldl (\<lambda>acc v. mergeRobots acc (parseRobotsDirectives (Some v))) None vs"

definition extractHtmlSignals ::
  "(string \<Rightarrow> html_doc) \<Rightarrow> urlapi \<Rightarrow> string \<Rightarrow> string \<Rightarrow> error + html_signals" where
  "extractHtmlSignals load api html baseUrl =
     (let doc = load html;
          canonEls = canonical_links doc;
          issues = (if length canonEls > 1 then [''multiple canonicals''] else [])
      in case extract_canonical api canonEls baseUrl of
           Inl e \<Rightarrow> Inl e
         | Inr canonical \<Rightarrow>
             (case extract_hreflang api baseUrl (alternate_links doc) of
                Inl e \<Rightarrow> Inl e
              | Inr hreflang \<Rightarrow>
                  Inr \<lparr>hs_canonical = canonical, hs_hreflang = hreflang,
                       hs_metaRobots = merge_all (map attr_text (robots_metas doc)),
                       hs_issues = issues\<rparr>))"

record noindex_flags =
  meta :: bool
  header :: bool

record AuditResult =
  a_url :: string
  a_finalUrl :: string
  a_status :: nat
  a_contentType :: "string option"
  a_canonical :: "string option"
  a_metaRobots :: "RobotsDirectives option"
  a_xRobots :: "RobotsDirectives option"
  a_noindex :: noindex_flags
  a_hreflang :: "HreflangLink list"
  a_issues :: "string list"
  a_redirectChain :: "RedirectHop list"

record AuditInput =
  urls :: "string list"
  userAgent :: "string option"

text \<open>
  What the auditor takes from outside: the network, the URL platform, the HTML library,
  and the two constants read from the process environment.
\<close>

record 'w audit_env =
  a_net :: "'w network"
  a_api :: urlapi
  a_load :: "string \<Rightarrow> html_doc"
  DEFAULT_UA :: string
  MAX_CONCURRENCY :: int

definition fetch_failed_result :: "string \<Rightarrow> AuditResult" where
  "fetch_failed_result rawUrl =
     \<lparr>a_url = rawUrl, a_finalUrl = rawUrl, a_status = 0, a_contentType = None,
      a_canonical = None, a_metaRobots = None, a_xRobots = None,
      a_noindex = \<lparr>meta = False, header = False\<rparr>, a_hreflang = [],
      a_issues = [''fetch failed''], a_redirectChain = []\<rparr>"

definition is_html :: "string option \<Rightarrow> bool" where
  "is_html contentType = (case contentType of None \<Rightarrow> False | Some ct \<Rightarrow> str_includes ct ''text/html'')"

text \<open>The \<open>try\<close> block around the canonical check: any constructor that throws lands in \<open>catch\<close>.\<close>

definition canonical_issues :: "urlapi \<Rightarrow> string \<Rightarrow> string option \<Rightarrow> string list" where
  "canonical_issues api finalUrl canonical =
     (case canonical of
        None \<Rightarrow> []
      | Some c \<Rightarrow>
          if c = [] then []
          else
            (case url_parse api finalUrl of
               None \<Rightarrow> [''invalid canonical URL'']
             | Some pageU \<Rightarrow>
                 (case url_parse api c of
                    None \<Rightarrow> [''invalid canonical URL'']
                  | Some canonU \<Rightarrow>
                      if \<not> sameETLD1 pageU canonU then [''canonical points to different eTLD+1'']
                      else [])))"

text \<open>The part of one task after a successful fetch.\<close>

definition audit_response :: "'w audit_env \<Rightarrow> string \<Rightarrow> res_info \<Rightarrow> error + AuditResult" where
  "audit_response env rawUrl resInfo =
     (let res = ri_res resInfo;
          finalUrl = ri_finalUrl resInfo;
          st = res_status res;
          contentType = headers_get (res_headers res) ''content-type'';
          xRobots = merge_all (getAllXRobots (res_headers res));
          html = (if st \<noteq> 204 \<and> is_html contentType
                  then (case res_body res of None \<Rightarrow> [] | Some h \<Rightarrow> h) else [])
      in case (if html \<noteq> [] then extractHtmlSignals (a_load env) (a_api env) html finalUrl
               else Inr \<lparr>hs_canonical = None, hs_hreflang = [], hs_metaRobots = None,
                         hs_issues = []\<rparr>) of
           Inl e \<Rightarrow> Inl e
         | Inr extracted \<Rightarrow>
             (let metaRobots = hs_metaRobots extracted;
                  noindexMeta = truthy metaRobots noindex;
                  noindexHeader = truthy xRobots noindex;
                  issues = hs_issues extracted
                    @ (if noindexMeta \<noteq> noindexHeader \<and> (noindexMeta \<or> noindexHeader)
                       then [''conflicting noindex between meta and header''] else [])
                    @ canonical_issues (a_api env) finalUrl (hs_canonical extracted)
              in Inr \<lparr>a_url = rawUrl, a_finalUrl = finalUrl, a_status = st,
                      a_contentType = contentType, a_canonical = hs_canonical extracted,
                      a_metaRobots = metaRobots, a_xRobots = xRobots,
                      a_noindex = \<lparr>meta = noindexMeta, header = noindexHeader\<rparr>,
                      a_hreflang = hs_hreflang extracted, a_issues = issues,
                      a_redirectChain = ri_redirectChain resInfo\<rparr>))"

definition audit_task :: "'w audit_env \<Rightarrow> string \<Rightarrow> string \<Rightarrow> 'w \<Rightarrow> (error + AuditResult) \<times> 'w" where
  "audit_task env rawUrl ua w =
     (case audit_fetchWithRedirects (a_net env) (url_resolve (a_api env)) rawUrl ua w of
        (Inl e, w') \<Rightarrow> (Inr (fetch_failed_result rawUrl), w')
      | (Inr resInfo, w') \<Rightarrow> (audit_response env rawUrl resInfo, w'))"

text \<open>
  \<open>Promise.all(tasks)\<close>: the results in the order of the inputs, or the rejection of a
  task. The tasks share nothing but the world, which is threaded through them.
\<close>

fun audit_tasks :: "'w audit_env \<Rightarrow> string \<Rightarrow> string list \<Rightarrow> 'w \<Rightarrow> (error + AuditResult list) \<times> 'w" where
  "audit_tasks env ua [] w = (Inr [], w)"
| "audit_tasks env ua (rawUrl # rest) w =
     (case audit_task env rawUrl ua w of
        (r, w') \<Rightarrow>
          (case audit_tasks env ua rest w' of
             (rs, w'') \<Rightarrow>
               (case r of
                  Inl e \<Rightarrow> (Inl e, w'')
                | Inr x \<Rightarrow> (case rs of Inl e \<Rightarrow> (Inl e, w'') | Inr xs \<Rightarrow> (Inr (x # xs), w'')))))"

text \<open>\<open>pLimit(n)\<close> throws unless \<open>n\<close> is a whole number from 1 up.\<close>

definition auditIndexability :: "'w audit_env \<Rightarrow> AuditInput \<Rightarrow> 'w \<Rightarrow> (error + AuditResult list) \<times> 'w" where
  "auditIndexability env input w =
     (let ua = (case userAgent input of None \<Rightarrow> DEFAULT_UA env | Some u \<Rightarrow> u) in
      if MAX_CONCURRENCY env < 1 then (Inl ConcurrencyError, w)
      else audit_tasks env ua (urls input) w)"

section \<open>utils/url.ts: the canonicalizer\<close>

definition TRACKING_PARAMS :: "string set" where
  "TRACKING_PARAMS = {''utm_source'', ''utm_medium'', ''utm_campaign'', ''utm_term'',
     ''utm_content'', ''gclid'', ''fbclid'', ''igshid'', ''mc_cid'', ''mc_eid''}"

definition stripTrackingParams :: "url \<Rightarrow> url" where
  "stripTrackingParams u = u\<lparr>query := filter (\<lambda>kv. fst kv \<notin> TRACKING_PARAMS) (query u)\<rparr>"

text \<open>
  \<open>normalizeForKey\<close>. The library call \<open>normalizeUrl(s, NORMALIZE_OPTS)\<close> is the parameter
  \<open>normalizeUrl\<close>; it and the second \<open>new URL\<close> stand outside the \<open>try\<close>, so their
  failures are failures of the call.
\<close>

definition normalizeForKey ::
  "urlapi \<Rightarrow> (string \<Rightarrow> error + string) \<Rightarrow> string \<Rightarrow> error + string" where
  "normalizeForKey api normalizeUrl urlStr =
     (case url_parse api urlStr of
        None \<Rightarrow> Inr urlStr
      | Some u0 \<Rightarrow>
          (let u = stripTrackingParams (u0\<lparr>hostname := toLowerCase (hostname u0), hash := []\<rparr>)
           in case normalizeUrl (url_href api u) of
                Inl e \<Rightarrow> Inl e
              | Inr normalized \<Rightarrow>
                  (case url_parse api normalized of
                     None \<Rightarrow> Inl InvalidURL
                   | Some u2 \<Rightarrow> Inr (url_href api (u2\<lparr>hostname := toLowerCase (hostname u2)\<rparr>)))))"

text \<open>
  \<open>path.extname\<close> of the Node platform (POSIX flavour): the text from the last dot of the
  last path component, trailing slashes set aside; empty when that component has no dot,
  starts at its only candidate dot, or is \<open>..\<close>.
\<close>

definition extname :: "string \<Rightarrow> string" where
  "extname p =
     (let trimmed = rev (dropWhile (\<lambda>c. c = CHR ''/'') (rev p));
          base = rev (takeWhile (\<lambda>c. c \<noteq> CHR ''/'') (rev trimmed));
          after = rev (takeWhile (\<lambda>c. c \<noteq> CHR ''.'') (rev base));
          i = length base - length after - 1
      in if CHR ''.'' \<notin> set base then []
         else if i = 0 then []
         else if base = ''..'' then []
         else drop i base)"

text \<open>\<open>hasIgnoredExtension\<close>; the module-level list \<open>ignoredExt\<close> is a parameter.\<close>

definition hasIgnoredExtension :: "string list \<Rightarrow> url \<Rightarrow> bool" where
  "hasIgnoredExtension ignoredExt u =
     (let p = toLowerCase (pathname u) in
      if (endsWith p ''.tar.gz'' \<or> endsWith p ''.tar.bz2'' \<or> endsWith p ''.tar.xz'') \<and>
         (''tar.gz'' \<in> set ignoredExt \<or> ''tar.bz2'' \<in> set ignoredExt \<or> ''tar.xz'' \<in> set ignoredExt)
      then True
      else
        (let ext = extname p in
         if ext = [] then False
         else
           (let withoutDot = (if startsWith ext ''.'' then drop 1 ext else ext)
            in withoutDot \<in> set ignoredExt \<or> ext \<in> set ignoredExt)))"

section \<open>A small URL platform for the examples\<close>

text \<open>
  A parser, serialiser and resolver for plain URLs \<open>http(s)://host/path?query#fragment\<close>,
  and the library normaliser on them with the options the repository passes
  (\<open>removeDirectoryIndex\<close>, \<open>sortQueryParameters\<close>, \<open>removeTrailingSlash\<close>). They stand
  for the platform in the concrete examples only, on strings of that plain shape: the
  parser rejects an authority with a port or user information, which \<open>new URL\<close> accepts,
  and the resolver handles absolute URLs and references that start with \<open>/\<close>, where
  \<open>new URL(rel, base)\<close> resolves every relative reference.
\<close>

definition parse_query :: "string \<Rightarrow> (string \<times> string) list" where
  "parse_query q =
     map (\<lambda>kv. (takeWhile (\<lambda>c. c \<noteq> CHR ''='') kv, drop 1 (dropWhile (\<lambda>c. c \<noteq> CHR ''='') kv)))
       (filter (\<lambda>kv. kv \<noteq> []) (split_on (\<lambda>c. c = CHR ''&'') q))"

definition parse_after :: "string \<Rightarrow> string \<Rightarrow> url option" where
  "parse_after proto r =
     (let auth = takeWhile (\<lambda>c. c \<notin> {CHR ''/'', CHR ''?'', CHR ''#''}) r;
          r1 = dropWhile (\<lambda>c. c \<notin> {CHR ''/'', CHR ''?'', CHR ''#''}) r;
          path = takeWhile (\<lambda>c. c \<notin> {CHR ''?'', CHR ''#''}) r1;
          r2 = dropWhile (\<lambda>c. c \<notin> {CHR ''?'', CHR ''#''}) r1;
          q = (if take 1 r2 = ''?'' then takeWhile (\<lambda>c. c \<noteq> CHR ''#'') (drop 1 r2) else []);
          r3 = dropWhile (\<lambda>c. c \<noteq> CHR ''#'') r2
      in if auth = [] \<or> CHR '':'' \<in> set auth \<or> CHR ''@'' \<in> set auth \<or> CHR '' '' \<in> set r then None
         else Some \<lparr>protocol = proto, hostname = toLowerCase auth, port = [],
                    pathname = (if path = [] then ''/'' else path),
                    query = parse_query q, hash = drop 1 r3\<rparr>)"

definition mini_parse :: "string \<Rightarrow> url option" where
  "mini_parse s =
     (if prefix ''http://'' s then parse_after ''http:'' (drop 7 s)
      else if prefix ''https://'' s then parse_after ''https:'' (drop 8 s)
      else None)"

definition mini_href :: "url \<Rightarrow> string" where
  "mini_href u =
     protocol u @ ''//'' @ hostname u @ pathname u
       @ (if query u = [] then [] else ''?'' @ join_with ''&'' (map (\<lambda>kv. fst kv @ ''='' @ snd kv) (query u)))
       @ (if hash u = [] then [] else ''#'' @ hash u)"

definition mini_resolve :: "string \<Rightarrow> string \<Rightarrow> string option" where
  "mini_resolve rel base =
     (case mini_parse rel of
        Some u \<Rightarrow> Some (mini_href u)
      | None \<Rightarrow>
          (case mini_parse base of
             None \<Rightarrow> None
           | Some b \<Rightarrow>
               if take 1 rel = ''/'' then map_option mini_href (mini_parse (protocol b @ ''//'' @ hostname b @ rel))
               else None))"

definition mini_api :: urlapi where
  "mini_api = \<lparr>url_parse = mini_parse, url_href = mini_href, url_resolve = mini_resolve\<rparr>"

text \<open>
  The normaliser of the library (normalize-url) under \<open>NORMALIZE_OPTS\<close>, on these plain
  URLs and in the library's order: a last path component that is a directory index
  (\<open>index.\<close> followed by one or more small letters) is removed, which leaves the directory
  with its slash; the query parameters are sorted by name; a trailing slash of the path
  is removed; and a slash that ends the whole string is removed when no fragment follows.
  What else the library does by default (dropping \<open>utm_\<close> parameters, collapsing duplicate
  slashes, decoding percent escapes) is not modelled; the examples contain none of these.
\<close>

definition is_directory_index :: "string \<Rightarrow> bool" where
  "is_directory_index c =
     (prefix ''index.'' c \<and> drop 6 c \<noteq> [] \<and>
      list_all (\<lambda>x. 97 \<le> (of_char x :: nat) \<and> (of_char x :: nat) \<le> 122) (drop 6 c))"

definition mini_normalizeUrl :: "string \<Rightarrow> error + string" where
  "mini_normalizeUrl s =
     (case mini_parse s of
        None \<Rightarrow> Inl InvalidURL
      | Some u \<Rightarrow>
          (let comps = split_on (\<lambda>c. c = CHR ''/'') (pathname u);
               joined = join_with ''/'' (drop 1 (butlast comps)) @ ''/'';
               path1 = (if is_directory_index (last comps)
                        then (if take 1 joined = ''/'' then joined else ''/'' @ joined)
                        else pathname u);
               path2 = (if path1 \<noteq> [] \<and> last path1 = CHR ''/'' then butlast path1 else path1);
               u' = u\<lparr>pathname := (if path2 = [] then ''/'' else path2),
                      query := sort_key fst (query u)\<rparr>;
               out = mini_href u'
           in Inr (if hash u' = [] \<and> out \<noteq> [] \<and> last out = CHR ''/'' then butlast out else out)))"

section \<open>crawler/crawl.ts: the crawl engine\<close>

datatype DiscoveredBy = Html | Sitemap | Both

record InventoryItem =
  i_url :: string
  i_normalizedUrl :: string
  i_finalUrl :: string
  i_status :: nat
  i_contentType :: "string option"
  i_depth :: int
  i_discoveredBy :: DiscoveredBy
  i_redirectChain :: "RedirectHop list"

record Edge =
  edge_from :: string
  edge_to :: string

text \<open>A queue entry \<open>{ url, depth }\<close>.\<close>

type_synonym node = "string \<times> int"

record CrawlInput =
  ci_startUrl :: string
  ci_depth :: "int option"
  ci_maxPages :: "int option"
  ci_includeSubdomains :: bool
  ci_userAgent :: "string option"

text \<open>
  What the engine takes from outside: the network, the URL platform, the normaliser and
  HTML libraries, the ignore list, the constants \<open>DEFAULTS\<close> read from the process
  environment, the answer of the robots agent, and the URL lists that
  \<open>collectSitemapUrls\<close> returned for the sitemap candidates (one list per candidate).
\<close>

record 'w crawl_env =
  c_net :: "'w network"
  c_api :: urlapi
  c_normalizeUrl :: "string \<Rightarrow> error + string"
  c_load :: "string \<Rightarrow> html_doc"
  c_ignoredExt :: "string list"
  d_depth :: int
  d_maxPages :: int
  d_ua :: string
  d_maxConcurrency :: int
  d_respectRobots :: bool
  d_requestTimeoutMs :: nat
  robots_isAllowed :: "string \<Rightarrow> bool"
  collected :: "string list list"

text \<open>The mutable variables of \<open>crawlSite\<close> that the visits share.\<close>

record crawl_state =
  queue :: "node list"
  seen :: "string set"
  inventoryMap :: "string \<rightharpoonup> InventoryItem"
  edges :: "Edge list"
  fetchedCount :: int

definition depthMax :: "'w crawl_env \<Rightarrow> CrawlInput \<Rightarrow> int" where
  "depthMax env input = (case ci_depth input of None \<Rightarrow> d_depth env | Some d \<Rightarrow> d)"

definition maxPages :: "'w crawl_env \<Rightarrow> CrawlInput \<Rightarrow> int" where
  "maxPages env input = (case ci_maxPages input of None \<Rightarrow> d_maxPages env | Some m \<Rightarrow> m)"

text \<open>\<open>(input.userAgent?.trim() || DEFAULTS.ua) || BROWSER_UA\<close>\<close>

definition crawl_ua :: "'w crawl_env \<Rightarrow> CrawlInput \<Rightarrow> string" where
  "crawl_ua env input =
     (let given = (case ci_userAgent input of None \<Rightarrow> [] | Some u \<Rightarrow> trim u);
          first = (if given \<noteq> [] then given else d_ua env)
      in if first \<noteq> [] then first else BROWSER_UA)"

definition keyOf :: "'w crawl_env \<Rightarrow> string \<Rightarrow> error + string" where
  "keyOf env = normalizeForKey (c_api env) (c_normalizeUrl env)"

text \<open>
  The set \<open>fromSitemaps\<close> in its insertion order. For each candidate the keys of its URLs
  are added until \<open>normalizeForKey\<close> throws, which the \<open>catch\<close> of that candidate absorbs.
\<close>

fun add_keys :: "(string \<Rightarrow> error + string) \<Rightarrow> string list \<Rightarrow> string list \<Rightarrow> string list" where
  "add_keys key acc [] = acc"
| "add_keys key acc (u # us) =
     (case key u of
        Inl e \<Rightarrow> acc
      | Inr k \<Rightarrow> add_keys key (if k \<in> set acc then acc else acc @ [k]) us)"

definition fromSitemaps :: "'w crawl_env \<Rightarrow> string list" where
  "fromSitemaps env = foldl (add_keys (keyOf env)) [] (collected env)"

text \<open>The two seeds of the queue: the start URL and its www or non-www twin.\<close>

definition seeds :: "urlapi \<Rightarrow> url \<Rightarrow> node list" where
  "seeds api base =
     [(url_href api base, 0),
      (if startsWith (hostname base) ''www.''
       then (protocol base @ ''//'' @ drop 4 (hostname base) @ pathname base, 0)
       else (protocol base @ ''//www.'' @ hostname base @ pathname base, 0))]"

text \<open>The loop body that marks one sitemap key in the inventory (lines 253 to 272).\<close>

definition register_sitemap :: "(string \<rightharpoonup> InventoryItem) \<Rightarrow> string \<Rightarrow> (string \<rightharpoonup> InventoryItem)" where
  "register_sitemap m k =
     (case m k of
        None \<Rightarrow>
          m(k \<mapsto> \<lparr>i_url = k, i_normalizedUrl = k, i_finalUrl = k, i_status = 0,
                     i_contentType = None, i_depth = 9999, i_discoveredBy = Sitemap,
                     i_redirectChain = []\<rparr>)
      | Some prev \<Rightarrow>
          m(k \<mapsto> prev\<lparr>i_discoveredBy := (if i_discoveredBy prev = Html then Both else Sitemap)\<rparr>))"

text \<open>
  \<open>visit\<close> up to its first \<open>await\<close> (lines 160 to 173): the budget test, the seen-set test
  and mark, and the filters. The result says whether the visit goes on to fetch, and
  under which key.
\<close>

definition visit_guard ::
  "'w crawl_env \<Rightarrow> CrawlInput \<Rightarrow> url \<Rightarrow> crawl_state \<Rightarrow> node \<Rightarrow> error + crawl_state \<times> string option" where
  "visit_guard env input base s nd =
     (if fetchedCount s \<ge> maxPages env input then Inr (s, None)
      else
        (case keyOf env (fst nd) of
           Inl e \<Rightarrow> Inl e
         | Inr key \<Rightarrow>
             if key \<in> seen s then Inr (s, None)
             else
               (let s' = s\<lparr>seen := insert key (seen s)\<rparr> in
                case url_parse (c_api env) (fst nd) of
                  None \<Rightarrow> Inr (s', None)
                | Some u \<Rightarrow>
                    if \<not> isInternal base u (ci_includeSubdomains input) then Inr (s', None)
                    else if hasIgnoredExtension (c_ignoredExt env) u then Inr (s', None)
                    else if d_respectRobots env \<and> \<not> robots_isAllowed env (fst nd) then Inr (s', None)
                    else Inr (s', Some key))))"

text \<open>\<open>res.headers.get("content-type") || null\<close>\<close>

definition content_type_or_null :: "response \<Rightarrow> string option" where
  "content_type_or_null res =
     (case headers_get (res_headers res) ''content-type'' of
        None \<Rightarrow> None
      | Some ct \<Rightarrow> if ct = [] then None else Some ct)"

text \<open>
  \<open>visit\<close> from the fetched response to the inventory entry (lines 183 to 215): the
  counter, the item, and the merge with an entry already stored under the key.
\<close>

definition visit_record ::
  "'w crawl_env \<Rightarrow> crawl_state \<Rightarrow> node \<Rightarrow> string \<Rightarrow> res_info \<Rightarrow> error + crawl_state" where
  "visit_record env s nd key resInfo =
     (let s1 = s\<lparr>fetchedCount := fetchedCount s + 1\<rparr>;
          res = ri_res resInfo;
          finalUrl = ri_finalUrl resInfo
      in case (if key \<in> set (fromSitemaps env) then Inr True
               else (case keyOf env finalUrl of
                       Inl e \<Rightarrow> Inl e
                     | Inr fk \<Rightarrow> Inr (fk \<in> set (fromSitemaps env)))) of
           Inl e \<Rightarrow> Inl e
         | Inr inSm \<Rightarrow>
             (let item = \<lparr>i_url = fst nd, i_normalizedUrl = key, i_finalUrl = finalUrl,
                          i_status = res_status res, i_contentType = content_type_or_null res,
                          i_depth = snd nd,
                          i_discoveredBy = (if inSm then Both else Html),
                          i_redirectChain = ri_redirectChain resInfo\<rparr>
              in case inventoryMap s1 key of
                   Some prev \<Rightarrow>
                     Inr (s1\<lparr>inventoryMap := (inventoryMap s1)(key \<mapsto>
                       item\<lparr>i_discoveredBy :=
                         (if i_discoveredBy prev = Sitemap \<or> i_discoveredBy item = Both then Both
                          else i_discoveredBy item)\<rparr>)\<rparr>)
                 | None \<Rightarrow> Inr (s1\<lparr>inventoryMap := (inventoryMap s1)(key \<mapsto> item)\<rparr>)))"

text \<open>A JavaScript \<open>Set\<close> built by successive \<open>add\<close>: first occurrences, in order.\<close>

fun add_all :: "string list \<Rightarrow> string list \<Rightarrow> string list" where
  "add_all acc [] = acc"
| "add_all acc (x # xs) = add_all (if x \<in> set acc then acc else acc @ [x]) xs"

text \<open>The \<open>each\<close> callback over the anchors: the absolute forms of the non-empty hrefs.\<close>

definition anchor_targets :: "urlapi \<Rightarrow> url \<Rightarrow> string option list \<Rightarrow> string list" where
  "anchor_targets api finalU els =
     concat (map (\<lambda>el.
        (let raw = trim (attr_text el) in
         if raw = [] then []
         else (case absolutize api finalU raw of
                 None \<Rightarrow> []
               | Some target \<Rightarrow> if target = [] then [] else [target]))) els)"

text \<open>
  The body of the \<open>for\<close> loop over the targets (lines 231 to 242): everything that throws
  inside it is caught and skips the target.
\<close>

definition follow_link ::
  "'w crawl_env \<Rightarrow> CrawlInput \<Rightarrow> url \<Rightarrow> node \<Rightarrow> string \<Rightarrow> crawl_state \<Rightarrow> string \<Rightarrow> crawl_state" where
  "follow_link env input base nd finalUrl s toAbs =
     (case url_parse (c_api env) toAbs of
        None \<Rightarrow> s
      | Some toURL \<Rightarrow>
          if \<not> isInternal base toURL (ci_includeSubdomains input) then s
          else if hasIgnoredExtension (c_ignoredExt env) toURL then s
          else
            (case keyOf env toAbs of
               Inl e \<Rightarrow> s
             | Inr toKey \<Rightarrow>
                 (case keyOf env finalUrl of
                    Inl e \<Rightarrow> s
                  | Inr fromKey \<Rightarrow>
                      (let s1 = s\<lparr>edges := edges s @ [\<lparr>edge_from = fromKey, edge_to = toKey\<rparr>]\<rparr>
                       in if toKey \<notin> seen s1 \<and> snd nd < depthMax env input
                          then s1\<lparr>queue := queue s1 @ [(toAbs, snd nd + 1)]\<rparr>
                          else s1))))"

text \<open>
  \<open>visit\<close> after the inventory entry (lines 217 to 244): the links of a successful HTML
  response. \<open>new URL(finalUrl)\<close> in the anchor callback is outside any \<open>try\<close>.
\<close>

definition visit_links ::
  "'w crawl_env \<Rightarrow> CrawlInput \<Rightarrow> url \<Rightarrow> crawl_state \<Rightarrow> node \<Rightarrow> res_info \<Rightarrow> error + crawl_state" where
  "visit_links env input base s nd resInfo =
     (let res = ri_res resInfo;
          ok = (200 \<le> res_status res \<and> res_status res \<le> 299);
          html = (if ok \<and> is_html (content_type_or_null res)
                  then (case res_body res of None \<Rightarrow> [] | Some h \<Rightarrow> h) else [])
      in if html = [] then Inr s
         else
           (let els = anchors (c_load env html) in
            if list_all (\<lambda>el. trim (attr_text el) = []) els then Inr s
            else
              (case url_parse (c_api env) (ri_finalUrl resInfo) of
                 None \<Rightarrow> Inl InvalidURL
               | Some finalU \<Rightarrow>
                   Inr (foldl (follow_link env input base nd (ri_finalUrl resInfo)) s
                          (add_all [] (anchor_targets (c_api env) finalU els))))))"

text \<open>The post-pass (lines 280 to 316): its candidates, its budget, and one update.\<close>

definition inbound :: "crawl_state \<Rightarrow> string set" where
  "inbound s = set (map edge_to (edges s))"

definition candidates :: "'w crawl_env \<Rightarrow> crawl_state \<Rightarrow> string list" where
  "candidates env s =
     filter (\<lambda>k. k \<in> inbound s \<and> (case inventoryMap s k of None \<Rightarrow> False | Some it \<Rightarrow> i_status it = 0))
       (fromSitemaps env)"

definition room :: "'w crawl_env \<Rightarrow> CrawlInput \<Rightarrow> crawl_state \<Rightarrow> int" where
  "room env input s = max 0 (maxPages env input - fetchedCount s)"

definition toFetch :: "'w crawl_env \<Rightarrow> CrawlInput \<Rightarrow> crawl_state \<Rightarrow> string list" where
  "toFetch env input s = take (nat (room env input s)) (candidates env s)"

definition postpass_update ::
  "'w crawl_env \<Rightarrow> CrawlInput \<Rightarrow> crawl_state \<Rightarrow> string \<Rightarrow> res_info \<Rightarrow> crawl_state" where
  "postpass_update env input s k resInfo =
     (case inventoryMap s k of
        None \<Rightarrow> s
      | Some prev \<Rightarrow>
          s\<lparr>inventoryMap := (inventoryMap s)(k \<mapsto>
               prev\<lparr>i_finalUrl := ri_finalUrl resInfo,
                    i_status := res_status (ri_res resInfo),
                    i_contentType := content_type_or_null (ri_res resInfo),
                    i_depth := min (i_depth prev) (depthMax env input + 1),
                    i_discoveredBy := Both,
                    i_redirectChain := ri_redirectChain resInfo\<rparr>),
            fetchedCount := fetchedCount s + 1\<rparr>)"

text \<open>
  One turn of the \<open>while\<close> loop up to \<open>Promise.all\<close>: the batch leaves the queue and every
  visit of it runs to its first \<open>await\<close>, in batch order, before any response arrives
  (the batch is no larger than the limit of \<open>pLimit\<close>, so no visit waits for a slot).
  The result lists the visits that went on to fetch.
\<close>

fun run_guards ::
  "'w crawl_env \<Rightarrow> CrawlInput \<Rightarrow> url \<Rightarrow> crawl_state \<Rightarrow> node list \<Rightarrow>
   error + crawl_state \<times> (node \<times> string) list" where
  "run_guards env input base s [] = Inr (s, [])"
| "run_guards env input base s (nd # nds) =
     (case visit_guard env input base s nd of
        Inl e \<Rightarrow> Inl e
      | Inr (s1, r) \<Rightarrow>
          (case run_guards env input base s1 nds of
             Inl e \<Rightarrow> Inl e
           | Inr (s2, started) \<Rightarrow>
               Inr (s2, (case r of None \<Rightarrow> [] | Some key \<Rightarrow> [(nd, key)]) @ started)))"

definition start_batch ::
  "'w crawl_env \<Rightarrow> CrawlInput \<Rightarrow> url \<Rightarrow> crawl_state \<Rightarrow> error + crawl_state \<times> (node \<times> string) list" where
  "start_batch env input base s =
     run_guards env input base (s\<lparr>queue := drop (nat (d_maxConcurrency env)) (queue s)\<rparr>)
       (take (nat (d_maxConcurrency env)) (queue s))"

definition initial_state :: "urlapi \<Rightarrow> url \<Rightarrow> crawl_state" where
  "initial_state api base =
     \<lparr>queue = seeds api base, seen = {}, inventoryMap = Map.empty, edges = [], fetchedCount = 0\<rparr>"

subsection \<open>Every run: the transitions between two awaits\<close>

text \<open>
  A visit in flight waits for its fetch or, with the response in hand, for the body text.
  The run is registering the sitemap keys, crawling with some visits in flight, in the
  post-pass with some fetches in flight, or finished.
\<close>

datatype stage = AwaitFetch | AwaitText res_info

datatype phase =
  Registering "string list"
| Crawling "(node \<times> string \<times> stage) list"
| PostPass "string list"
| Finished

text \<open>
  One step of a run. Which visit in flight continues next, and what its fetch returns,
  is up to the network: any visit, any response, or a failure. A step that throws
  outside a \<open>try\<close> ends the run and is no transition.
\<close>

inductive crawl_step ::
  "'w crawl_env \<Rightarrow> CrawlInput \<Rightarrow> url \<Rightarrow> phase \<times> crawl_state \<Rightarrow> phase \<times> crawl_state \<Rightarrow> bool"
  for env :: "'w crawl_env" and input :: CrawlInput and base :: url where
  register:
    "crawl_step env input base (Registering (k # ks), s)
       (Registering ks, s\<lparr>inventoryMap := register_sitemap (inventoryMap s) k\<rparr>)"
| registered:
    "crawl_step env input base (Registering [], s) (Crawling [], s)"
| batch:
    "queue s \<noteq> [] \<Longrightarrow> fetchedCount s < maxPages env input \<Longrightarrow>
     start_batch env input base s = Inr (s', started) \<Longrightarrow>
     crawl_step env input base (Crawling [], s)
       (Crawling (map (\<lambda>v. (fst v, snd v, AwaitFetch)) started), s')"
| fetch_failed:
    "(nd, key, AwaitFetch) \<in> set fl \<Longrightarrow>
     crawl_step env input base (Crawling fl, s) (Crawling (remove1 (nd, key, AwaitFetch) fl), s)"
| fetched:
    "(nd, key, AwaitFetch) \<in> set fl \<Longrightarrow> visit_record env s nd key r = Inr s' \<Longrightarrow>
     crawl_step env input base (Crawling fl, s)
       (Crawling ((nd, key, AwaitText r) # remove1 (nd, key, AwaitFetch) fl), s')"
| linked:
    "(nd, key, AwaitText r) \<in> set fl \<Longrightarrow> visit_links env input base s nd r = Inr s' \<Longrightarrow>
     crawl_step env input base (Crawling fl, s) (Crawling (remove1 (nd, key, AwaitText r) fl), s')"
| crawled:
    "\<not> (queue s \<noteq> [] \<and> fetchedCount s < maxPages env input) \<Longrightarrow>
     crawl_step env input base (Crawling [], s) (PostPass (toFetch env input s), s)"
| post_failed:
    "k \<in> set ks \<Longrightarrow>
     crawl_step env input base (PostPass ks, s) (PostPass (remove1 k ks), s)"
| post_fetched:
    "k \<in> set ks \<Longrightarrow>
     crawl_step env input base (PostPass ks, s)
       (PostPass (remove1 k ks), postpass_update env input s k r)"
| finished:
    "crawl_step env input base (PostPass [], s) (Finished, s)"

text \<open>
  The configurations of a run. It starts once the start URL has parsed and \<open>pLimit\<close> has
  accepted the concurrency limit, with the two seeds queued and nothing else.
\<close>

inductive crawl_reach ::
  "'w crawl_env \<Rightarrow> CrawlInput \<Rightarrow> url \<Rightarrow> phase \<times> crawl_state \<Rightarrow> bool"
  for env :: "'w crawl_env" and input :: CrawlInput and base :: url where
  start:
    "url_parse (c_api env) (ci_startUrl input) = Some base \<Longrightarrow> 1 \<le> d_maxConcurrency env \<Longrightarrow>
     crawl_reach env input base (Registering (fromSitemaps env), initial_state (c_api env) base)"
| step:
    "crawl_reach env input base c \<Longrightarrow> crawl_step env input base c c' \<Longrightarrow>
     crawl_reach env input base c'"

subsection \<open>One run: the responses arrive in the order of the requests\<close>

fun complete_all ::
  "'w crawl_env \<Rightarrow> CrawlInput \<Rightarrow> url \<Rightarrow> (node \<times> string) list \<Rightarrow> crawl_state \<Rightarrow> 'w \<Rightarrow>
   (error + crawl_state) \<times> 'w" where
  "complete_all env input base [] s w = (Inr s, w)"
| "complete_all env input base ((nd, key) # rest) s w =
     (case fetchWithRedirects (c_net env) (url_resolve (c_api env)) (fst nd) (crawl_ua env input)
             (d_requestTimeoutMs env) w of
        (Inl e, w') \<Rightarrow> complete_all env input base rest s w'
      | (Inr r, w') \<Rightarrow>
          (case visit_record env s nd key r of
             Inl e \<Rightarrow> (Inl e, w')
           | Inr s1 \<Rightarrow>
               (case visit_links env input base s1 nd r of
                  Inl e \<Rightarrow> (Inl e, w')
                | Inr s2 \<Rightarrow> complete_all env input base rest s2 w')))"

definition run_batch ::
  "'w crawl_env \<Rightarrow> CrawlInput \<Rightarrow> url \<Rightarrow> crawl_state \<Rightarrow> 'w \<Rightarrow> (error + crawl_state) \<times> 'w" where
  "run_batch env input base s w =
     (case start_batch env input base s of
        Inl e \<Rightarrow> (Inl e, w)
      | Inr (s1, started) \<Rightarrow> complete_all env input base started s1 w)"

text \<open>The \<open>while\<close> loop; \<open>None\<close> is a loop that never ends.\<close>

partial_function (option) bfs ::
  "'w crawl_env \<Rightarrow> CrawlInput \<Rightarrow> url \<Rightarrow> crawl_state \<Rightarrow> 'w \<Rightarrow> ((error + crawl_state) \<times> 'w) option" where
  "bfs env input base s w =
     (if queue s \<noteq> [] \<and> fetchedCount s < maxPages env input then
        (case run_batch env input base s w of
           (Inl e, w') \<Rightarrow> Some (Inl e, w')
         | (Inr s', w') \<Rightarrow> bfs env input base s' w')
      else Some (Inr s, w))"

declare bfs.simps [code]

fun post_all ::
  "'w crawl_env \<Rightarrow> CrawlInput \<Rightarrow> string list \<Rightarrow> crawl_state \<Rightarrow> 'w \<Rightarrow> crawl_state \<times> 'w" where
  "post_all env input [] s w = (s, w)"
| "post_all env input (k # ks) s w =
     (case fetchWithRedirects (c_net env) (url_resolve (c_api env)) k (crawl_ua env input)
             (d_requestTimeoutMs env) w of
        (Inl e, w') \<Rightarrow> post_all env input ks s w'
      | (Inr r, w') \<Rightarrow> post_all env input ks (postpass_update env input s k r) w')"

text \<open>
  \<open>crawlSite\<close> from the parsed start URL to the state the reports are derived from; the
  world is the one left by the robots and sitemap requests. \<open>pagesFetched\<close> of the
  output is \<open>fetchedCount\<close> of this state.
\<close>

definition crawlSite ::
  "'w crawl_env \<Rightarrow> CrawlInput \<Rightarrow> 'w \<Rightarrow> ((error + crawl_state) \<times> 'w) option" where
  "crawlSite env input w =
     (case url_parse (c_api env) (ci_startUrl input) of
        None \<Rightarrow> Some (Inl InvalidURL, w)
      | Some base \<Rightarrow>
          if d_maxConcurrency env < 1 then Some (Inl ConcurrencyError, w)
          else
            (let s0 = initial_state (c_api env) base;
                 s1 = s0\<lparr>inventoryMap := foldl register_sitemap (inventoryMap s0) (fromSitemaps env)\<rparr>
             in case bfs env input base s1 w of
                  None \<Rightarrow> None
                | Some (Inl e, w') \<Rightarrow> Some (Inl e, w')
                | Some (Inr s2, w') \<Rightarrow>
                    (case post_all env input (toFetch env input s2) s2 w' of
                       (s3, w'') \<Rightarrow> Some (Inr s3, w''))))"

section \<open>Vocabulary of the properties\<close>

text \<open>
  Following redirects from a received response. \<open>follows net resolve ua t cur res w hops f r w'\<close>:
  from the response \<open>res\<close> of \<open>cur\<close>, in the world \<open>w\<close>, the redirects followed one after
  the other are recorded by \<open>hops\<close> and end at the response \<open>r\<close> of \<open>f\<close>, in the world \<open>w'\<close>.
  One redirect is followed from a response with a redirect status and a non-empty
  \<open>Location\<close>: the \<open>Location\<close> is resolved against the current URL, the result is
  requested, and one hop is recorded with the current URL, the resolved URL and the
  status of the redirecting response.
\<close>

inductive follows ::
  "'w network \<Rightarrow> (string \<Rightarrow> string \<Rightarrow> string option) \<Rightarrow> string \<Rightarrow> nat \<Rightarrow>
   string \<Rightarrow> response \<Rightarrow> 'w \<Rightarrow> RedirectHop list \<Rightarrow> string \<Rightarrow> response \<Rightarrow> 'w \<Rightarrow> bool"
  for net resolve ua t where
  final: "follows net resolve ua t cur res w [] cur res w"
| redirect:
    "res_status res \<in> REDIRECT_STATUSES \<Longrightarrow>
     headers_get (res_headers res) ''location'' = Some loc \<Longrightarrow> loc \<noteq> [] \<Longrightarrow>
     resolve loc cur = Some nxt \<Longrightarrow>
     fetchOnce net nxt ua t w = (Inr res', w1) \<Longrightarrow>
     follows net resolve ua t nxt res' w1 hops f r w' \<Longrightarrow>
     follows net resolve ua t cur res w
       (\<lparr>hop_from = cur, hop_to = nxt, hop_status = res_status res\<rparr> # hops) f r w'"

text \<open>A response that ends the following by itself: no redirect status, or no usable
  \<open>Location\<close> (absent, or present with an empty value).\<close>

definition stops :: "response \<Rightarrow> bool" where
  "stops res =
     (res_status res \<notin> REDIRECT_STATUSES \<or>
      headers_get (res_headers res) ''location'' = None \<or>
      headers_get (res_headers res) ''location'' = Some [])"

text \<open>The network answers only requests whose URL the platform can parse (the global
  \<open>fetch\<close> throws on any other).\<close>

definition fetch_parses :: "'w network \<Rightarrow> urlapi \<Rightarrow> bool" where
  "fetch_parses net api =
     (\<forall>req w r w'. net req w = (Inr r, w') \<longrightarrow> url_parse api (req_url req) \<noteq> None)"

text \<open>The world in which the task of the \<open>i\<close>-th URL runs.\<close>

definition world_before :: "'w audit_env \<Rightarrow> string \<Rightarrow> string list \<Rightarrow> 'w \<Rightarrow> nat \<Rightarrow> 'w" where
  "world_before env ua us w i = snd (audit_tasks env ua (take i us) w)"

text \<open>\<open>normalizeForKey(normalizeForKey(u))\<close>\<close>

definition normalize_twice ::
  "urlapi \<Rightarrow> (string \<Rightarrow> error + string) \<Rightarrow> string \<Rightarrow> error + string" where
  "normalize_twice api normalizeUrl u =
     (case normalizeForKey api normalizeUrl u of
        Inl e \<Rightarrow> Inl e
      | Inr k \<Rightarrow> normalizeForKey api normalizeUrl k)"

text \<open>\<open>stats.pagesFetched\<close> of the output of a call that returns a result.\<close>

definition pagesFetched :: "((error + crawl_state) \<times> 'w) option \<Rightarrow> int option" where
  "pagesFetched out =
     (case out of
        Some (Inr s, w) \<Rightarrow> Some (fetchedCount s)
      | _ \<Rightarrow> None)"

text \<open>Every inventory entry is stored under its own normalized key; the inventory is a
  map, so there is one entry per key.\<close>

definition keyed :: "(string \<rightharpoonup> InventoryItem) \<Rightarrow> bool" where
  "keyed m = (\<forall>k it. m k = Some it \<longrightarrow> i_normalizedUrl it = k)"

text \<open>From one inventory to the next every entry stays, and its provenance stays or
  becomes \<open>both\<close>.\<close>

definition strengthens :: "(string \<rightharpoonup> InventoryItem) \<Rightarrow> (string \<rightharpoonup> InventoryItem) \<Rightarrow> bool" where
  "strengthens m m' =
     (\<forall>k it. m k = Some it \<longrightarrow>
        (\<exists>it'. m' k = Some it' \<and> (i_discoveredBy it' = i_discoveredBy it \<or> i_discoveredBy it' = Both)))"

text \<open>The keys of the visits in flight that still wait for their fetch.\<close>

fun awaiting :: "(node \<times> string \<times> stage) list \<Rightarrow> string list" where
  "awaiting [] = []"
| "awaiting ((nd, key, st) # fl) = (if st = AwaitFetch then key # awaiting fl else awaiting fl)"

text \<open>What holds of every configuration of a run, phase by phase.\<close>

definition crawl_inv :: "'w crawl_env \<Rightarrow> phase \<times> crawl_state \<Rightarrow> bool" where
  "crawl_inv env c =
     (let m = inventoryMap (snd c) in
      keyed m \<and>
      (case fst c of
         Registering ks \<Rightarrow>
           distinct ks \<and> set ks \<subseteq> set (fromSitemaps env) \<and> (\<forall>k \<in> set ks. m k = None) \<and>
           dom m \<subseteq> set (fromSitemaps env)
       | Crawling fl \<Rightarrow>
           distinct (awaiting fl) \<and> set (awaiting fl) \<subseteq> seen (snd c) \<and>
           (\<forall>k \<in> dom m. k \<in> set (fromSitemaps env) \<or> (k \<in> seen (snd c) \<and> k \<notin> set (awaiting fl)))
       | PostPass ks \<Rightarrow> True
       | Finished \<Rightarrow> True))"

text \<open>The count of fetched pages plus the fetches still to come, in each phase.\<close>

definition budget_inv :: "'w crawl_env \<Rightarrow> CrawlInput \<Rightarrow> phase \<times> crawl_state \<Rightarrow> bool" where
  "budget_inv env input c =
     (let bound = max 0 (maxPages env input) + d_maxConcurrency env - 1;
          n = fetchedCount (snd c)
      in 0 \<le> n \<and>
         (case fst c of
            Registering ks \<Rightarrow> n = 0
          | Crawling fl \<Rightarrow> n + int (length (awaiting fl)) \<le> bound
          | PostPass ks \<Rightarrow> n + int (length ks) \<le> bound
          | Finished \<Rightarrow> n \<le> bound))"

section \<open>Concrete servers and sites\<close>

text \<open>A server that moves \<open>/a\<close> to \<open>/b\<close> (301), \<open>/b\<close> to \<open>/c\<close> (302) and serves \<open>/c\<close>.\<close>

definition moved_net :: "unit network" where
  "moved_net req w =
     (if req_url req = ''http://h/a'' then
        (Inr \<lparr>res_status = 301, res_headers = [(''location'', ''/b'')], res_body = None\<rparr>, w)
      else if req_url req = ''http://h/b'' then
        (Inr \<lparr>res_status = 302, res_headers = [(''Location'', ''/c'')], res_body = None\<rparr>, w)
      else if req_url req = ''http://h/c'' then
        (Inr \<lparr>res_status = 200, res_headers = [], res_body = Some ''ok''\<rparr>, w)
      else (Inl NetworkError, w))"

definition moved_resolve :: "string \<Rightarrow> string \<Rightarrow> string option" where
  "moved_resolve loc base = (if take 1 loc = ''/'' then Some (''http://h'' @ loc) else None)"

text \<open>A server that answers every request with a redirect (307) to \<open>/a\<close>, and one that
  answers every request with a 301 that carries no \<open>Location\<close>.\<close>

definition loop_net :: "unit network" where
  "loop_net req w =
     (Inr \<lparr>res_status = 307, res_headers = [(''Location'', ''/a'')], res_body = None\<rparr>, w)"

definition bare_net :: "unit network" where
  "bare_net req w = (Inr \<lparr>res_status = 301, res_headers = [], res_body = None\<rparr>, w)"

text \<open>A server that answers 403 to every user agent but the browser one, which gets 200.\<close>

definition picky_net :: "unit network" where
  "picky_net req w =
     (if headers_get (req_headers req) ''user-agent'' = Some BROWSER_UA then
        (Inr \<lparr>res_status = 200, res_headers = [], res_body = Some ''hello''\<rparr>, w)
      else (Inr \<lparr>res_status = 403, res_headers = [], res_body = None\<rparr>, w))"

text \<open>A server that is down, and one that is down for every agent but the browser one.\<close>

definition down_net :: "unit network" where
  "down_net req w = (Inl NetworkError, w)"

definition shy_net :: "unit network" where
  "shy_net req w =
     (if headers_get (req_headers req) ''user-agent'' = Some BROWSER_UA then
        (Inr \<lparr>res_status = 200, res_headers = [], res_body = Some ''hello''\<rparr>, w)
      else (Inl NetworkError, w))"

text \<open>A server that answers 403 once and is down from then on (the world: has it answered?).\<close>

definition moody_net :: "bool network" where
  "moody_net req answered =
     (if answered then (Inl NetworkError, True)
      else (Inr \<lparr>res_status = 403, res_headers = [], res_body = None\<rparr>, True))"

text \<open>A site whose every page is HTML with a robots meta tag \<open>noindex\<close> and no
  \<open>X-Robots-Tag\<close> header, and the HTML library's reading of that page.\<close>

definition noindex_page :: string where
  "noindex_page = ''<html><head><meta name=robots content=noindex></head></html>''"

definition page_net :: "unit network" where
  "page_net req w =
     (Inr \<lparr>res_status = 200, res_headers = [(''content-type'', ''text/html; charset=utf-8'')],
           res_body = Some noindex_page\<rparr>, w)"

definition page_load :: "string \<Rightarrow> html_doc" where
  "page_load html =
     \<lparr>canonical_links = [], alternate_links = [],
      robots_metas = (if html = noindex_page then [Some ''noindex''] else []), anchors = []\<rparr>"

definition page_env :: "unit audit_env" where
  "page_env = \<lparr>a_net = page_net, a_api = mini_api, a_load = page_load,
     DEFAULT_UA = ''mcp-crawler'', MAX_CONCURRENCY = 6\<rparr>"

text \<open>The auditor against the server that moves \<open>/a\<close>, which answers nothing else.\<close>

definition moved_env :: "unit audit_env" where
  "moved_env = \<lparr>a_net = moved_net, a_api = mini_api, a_load = page_load,
     DEFAULT_UA = ''mcp-crawler'', MAX_CONCURRENCY = 6\<rparr>"

text \<open>
  A crawl of the site of \<open>page_net\<close>, whose every URL answers 200, with the defaults of
  the source, no sitemap and no robots rules.
\<close>

definition open_env :: "unit crawl_env" where
  "open_env =
     \<lparr>c_net = page_net, c_api = mini_api, c_normalizeUrl = mini_normalizeUrl,
      c_load = page_load, c_ignoredExt = [], d_depth = 2, d_maxPages = 500, d_ua = ''mcp-crawler'',
      d_maxConcurrency = 6, d_respectRobots = False, d_requestTimeoutMs = 20000,
      robots_isAllowed = (\<lambda>u. True), collected = []\<rparr>"

definition one_page_input :: CrawlInput where
  "one_page_input =
     \<lparr>ci_startUrl = ''https://example.com/'', ci_depth = None, ci_maxPages = Some 1,
      ci_includeSubdomains = True, ci_userAgent = None\<rparr>"

text \<open>The same site with a sitemap that lists the start URL, and the pieces of one run
  on it: the parsed start URL, the state after registering the sitemap key, the state
  after the first batch has started, the response to the first visit, and the state
  after that visit has recorded it.\<close>

definition sitemap_env :: "unit crawl_env" where
  "sitemap_env = open_env\<lparr>collected := [[''https://example.com/'']]\<rparr>"

definition example_base :: url where
  "example_base = \<lparr>protocol = ''https:'', hostname = ''example.com'', port = [], pathname = ''/'',
     query = [], hash = []\<rparr>"

definition registered_state :: crawl_state where
  "registered_state =
     (initial_state mini_api example_base)
       \<lparr>inventoryMap := register_sitemap (inventoryMap (initial_state mini_api example_base))
          ''https://example.com/''\<rparr>"

definition started_state :: crawl_state where
  "started_state =
     registered_state\<lparr>queue := [], seen := {''https://www.example.com/'', ''https://example.com/''}\<rparr>"

definition home_response :: res_info where
  "home_response =
     \<lparr>ri_res = \<lparr>res_status = 200, res_headers = [(''content-type'', ''text/html; charset=utf-8'')],
                 res_body = Some noindex_page\<rparr>,
      ri_finalUrl = ''https://example.com/'', ri_redirectChain = []\<rparr>"

definition recorded_state :: crawl_state where
  "recorded_state =
     started_state
       \<lparr>inventoryMap := (inventoryMap started_state)(''https://example.com/'' \<mapsto>
          \<lparr>i_url = ''https://example.com/'', i_normalizedUrl = ''https://example.com/'',
           i_finalUrl = ''https://example.com/'', i_status = 200,
           i_contentType = Some ''text/html; charset=utf-8'', i_depth = 0,
           i_discoveredBy = Both, i_redirectChain = []\<rparr>),
        fetchedCount := 1\<rparr>"

section \<open>The redirect chain\<close>

lemma chain_loop_stops:
  "stops res \<Longrightarrow>
   chain_loop net resolve t ua n cur res hops w =
     (Inr \<lparr>ri_res = res, ri_finalUrl = cur, ri_redirectChain = hops\<rparr>, w)"
  by (cases n) (auto simp: stops_def)

lemma chain_loop_follow:
  "res_status res \<in> REDIRECT_STATUSES \<Longrightarrow> headers_get (res_headers res) ''location'' = Some loc \<Longrightarrow>
   loc \<noteq> [] \<Longrightarrow> resolve loc cur = Some nxt \<Longrightarrow> fetchOnce net nxt ua t w = (Inr res', w') \<Longrightarrow>
   chain_loop net resolve t ua (Suc n) cur res hops w =
   chain_loop net resolve t ua n nxt res'
     (hops @ [\<lparr>hop_from = cur, hop_to = nxt, hop_status = res_status res\<rparr>]) w'"
  by simp

lemma chain_loop_final:
  "res_status res \<notin> REDIRECT_STATUSES \<Longrightarrow>
   chain_loop net resolve t ua n cur res hops w =
     (Inr \<lparr>ri_res = res, ri_finalUrl = cur, ri_redirectChain = hops\<rparr>, w)"
  by (cases n) auto

lemma chain_loop_complete:
  "follows net resolve ua t cur res w hops2 f r w' \<Longrightarrow> length hops2 \<le> n \<Longrightarrow>
   stops r \<or> length hops2 = n \<Longrightarrow>
   chain_loop net resolve t ua n cur res hops w =
     (Inr \<lparr>ri_res = r, ri_finalUrl = f, ri_redirectChain = hops @ hops2\<rparr>, w')"
proof (induction arbitrary: n hops rule: follows.induct)
  case (final cur res w)
  then show ?case by (cases "stops res") (auto simp: chain_loop_stops)
next
  case (redirect res loc cur nxt w res' w1 hops2 f r w')
  from redirect.prems obtain m where n: "n = Suc m" by (cases n) auto
  have "chain_loop net resolve t ua (Suc m) cur res hops w =
        chain_loop net resolve t ua m nxt res'
          (hops @ [\<lparr>hop_from = cur, hop_to = nxt, hop_status = res_status res\<rparr>]) w1"
    using redirect.hyps by (intro chain_loop_follow)
  also have "\<dots> = (Inr \<lparr>ri_res = r, ri_finalUrl = f,
        ri_redirectChain = (hops @ [\<lparr>hop_from = cur, hop_to = nxt, hop_status = res_status res\<rparr>]) @ hops2\<rparr>, w')"
    using redirect.prems n by (intro redirect.IH) auto
  finally show ?case by (simp add: n)
qed

lemma chain_loop_sound:
  "chain_loop net resolve t ua n cur res hops w = (Inr r, w') \<Longrightarrow>
   \<exists>hops2. ri_redirectChain r = hops @ hops2 \<and>
     follows net resolve ua t cur res w hops2 (ri_finalUrl r) (ri_res r) w' \<and>
     length hops2 \<le> n \<and> (stops (ri_res r) \<or> length hops2 = n)"
proof (induction n arbitrary: cur res hops w)
  case 0
  then show ?case by (auto intro: follows.final)
next
  case (Suc n)
  show ?case
  proof (cases "stops res")
    case True
    with Suc.prems show ?thesis
      by (auto simp: chain_loop_stops intro: follows.final simp del: chain_loop.simps)
  next
    case False
    then obtain loc where red: "res_status res \<in> REDIRECT_STATUSES"
      and loc: "headers_get (res_headers res) ''location'' = Some loc" and ne: "loc \<noteq> []"
      by (auto simp: stops_def)
    from red loc ne Suc.prems(1) obtain nxt res' w1 where
      r: "resolve loc cur = Some nxt" and
      f: "fetchOnce net nxt ua t w = (Inr res', w1)" and
      rec: "chain_loop net resolve t ua n nxt res'
         (hops @ [\<lparr>hop_from = cur, hop_to = nxt, hop_status = res_status res\<rparr>]) w1 = (Inr r, w')"
      by (auto split: option.splits sum.splits prod.splits)
    from Suc.IH[OF rec] obtain hops2 where
      h: "ri_redirectChain r = (hops @ [\<lparr>hop_from = cur, hop_to = nxt, hop_status = res_status res\<rparr>]) @ hops2"
      and fl: "follows net resolve ua t nxt res' w1 hops2 (ri_finalUrl r) (ri_res r) w'"
      and len: "length hops2 \<le> n" "stops (ri_res r) \<or> length hops2 = n"
      by blast
    have "follows net resolve ua t cur res w
       (\<lparr>hop_from = cur, hop_to = nxt, hop_status = res_status res\<rparr> # hops2)
       (ri_finalUrl r) (ri_res r) w'"
      using red loc ne r f fl by (rule follows.redirect)
    with h len show ?thesis by auto
  qed
qed


text \<open>
  Claim C5. One logical fetch follows redirects while the status is one of 301, 302, 303,
  307, 308, the response carries a \<open>Location\<close> the code can use (present and not empty) and
  fewer than 10 hops were followed. \<open>chain\<close> returns a result exactly when the first request
  is answered and redirects can be followed from its response, each \<open>Location\<close> resolved
  against the current URL and one hop recorded per redirect, up to a response that ends the
  following by itself (no redirect status, or no usable \<open>Location\<close>) after at most 10 hops,
  or up to the response that the tenth hop receives; the result is then that last
  response, its URL as the final URL, and the recorded hops. So a redirect with a usable
  \<open>Location\<close> is followed while fewer than 10 hops were followed, and a response without a
  usable \<open>Location\<close>, or the one reached when the hops are used up, is returned as final. In
  particular a server that answers 301, then 302, then 200 gives exactly two hops and the
  URL of the 200 response as the final URL.
\<close>

theorem chain_follows_redirects:
  "(chain net resolve t url ua w = (Inr r, w') \<longleftrightarrow>
      (\<exists>res0 w0. fetchOnce net url ua t w = (Inr res0, w0) \<and>
         follows net resolve ua t url res0 w0 (ri_redirectChain r) (ri_finalUrl r) (ri_res r) w' \<and>
         length (ri_redirectChain r) \<le> 10 \<and>
         (stops (ri_res r) \<or> length (ri_redirectChain r) = 10))) \<and>
   (fetchOnce net url ua t w = (Inr r0, w1) \<and> res_status r0 = 301 \<and>
    headers_get (res_headers r0) ''location'' = Some l1 \<and> l1 \<noteq> [] \<and> resolve l1 url = Some u1 \<and>
    fetchOnce net u1 ua t w1 = (Inr r1, w2) \<and> res_status r1 = 302 \<and>
    headers_get (res_headers r1) ''location'' = Some l2 \<and> l2 \<noteq> [] \<and> resolve l2 u1 = Some u2 \<and>
    fetchOnce net u2 ua t w2 = (Inr r2, w3) \<and> res_status r2 = 200 \<longrightarrow>
    chain net resolve t url ua w =
      (Inr \<lparr>ri_res = r2, ri_finalUrl = u2,
            ri_redirectChain = [\<lparr>hop_from = url, hop_to = u1, hop_status = 301\<rparr>,
                                \<lparr>hop_from = u1, hop_to = u2, hop_status = 302\<rparr>]\<rparr>, w3))"
proof (intro conjI impI iffI)
  assume "chain net resolve t url ua w = (Inr r, w')"
  then obtain res w1 where f: "fetchOnce net url ua t w = (Inr res, w1)"
    and l: "chain_loop net resolve t ua 10 url res [] w1 = (Inr r, w')"
    by (auto simp: chain_def split: sum.splits prod.splits)
  from chain_loop_sound[OF l] f
  show "\<exists>res0 w0. fetchOnce net url ua t w = (Inr res0, w0) \<and>
         follows net resolve ua t url res0 w0 (ri_redirectChain r) (ri_finalUrl r) (ri_res r) w' \<and>
         length (ri_redirectChain r) \<le> 10 \<and>
         (stops (ri_res r) \<or> length (ri_redirectChain r) = 10)"
    by auto
next
  assume "\<exists>res0 w0. fetchOnce net url ua t w = (Inr res0, w0) \<and>
         follows net resolve ua t url res0 w0 (ri_redirectChain r) (ri_finalUrl r) (ri_res r) w' \<and>
         length (ri_redirectChain r) \<le> 10 \<and>
         (stops (ri_res r) \<or> length (ri_redirectChain r) = 10)"
  then obtain res0 w0 where f: "fetchOnce net url ua t w = (Inr res0, w0)"
    and fl: "follows net resolve ua t url res0 w0 (ri_redirectChain r) (ri_finalUrl r) (ri_res r) w'"
    and len: "length (ri_redirectChain r) \<le> 10" "stops (ri_res r) \<or> length (ri_redirectChain r) = 10"
    by blast
  from chain_loop_complete[OF fl len, where hops = "[]"] f
  show "chain net resolve t url ua w = (Inr r, w')" by (simp add: chain_def)
next
  assume a: "fetchOnce net url ua t w = (Inr r0, w1) \<and> res_status r0 = 301 \<and>
    headers_get (res_headers r0) ''location'' = Some l1 \<and> l1 \<noteq> [] \<and> resolve l1 url = Some u1 \<and>
    fetchOnce net u1 ua t w1 = (Inr r1, w2) \<and> res_status r1 = 302 \<and>
    headers_get (res_headers r1) ''location'' = Some l2 \<and> l2 \<noteq> [] \<and> resolve l2 u1 = Some u2 \<and>
    fetchOnce net u2 ua t w2 = (Inr r2, w3) \<and> res_status r2 = 200"
  have s1: "res_status r0 \<in> REDIRECT_STATUSES" and s2: "res_status r1 \<in> REDIRECT_STATUSES"
    and s3: "res_status r2 \<notin> REDIRECT_STATUSES"
    using a by (simp_all add: REDIRECT_STATUSES_def)
  have "follows net resolve ua t u2 r2 w3 [] u2 r2 w3" by (rule follows.final)
  with a s2 have "follows net resolve ua t u1 r1 w2
      [\<lparr>hop_from = u1, hop_to = u2, hop_status = res_status r1\<rparr>] u2 r2 w3"
    by (intro follows.redirect[where loc = l2]) auto
  with a s1 have "follows net resolve ua t url r0 w1
      [\<lparr>hop_from = url, hop_to = u1, hop_status = res_status r0\<rparr>,
       \<lparr>hop_from = u1, hop_to = u2, hop_status = res_status r1\<rparr>] u2 r2 w3"
    by (intro follows.redirect[where loc = l1]) auto
  from chain_loop_complete[OF this, where hops = "[]" and n = 10] s3 a
  show "chain net resolve t url ua w =
      (Inr \<lparr>ri_res = r2, ri_finalUrl = u2,
            ri_redirectChain = [\<lparr>hop_from = url, hop_to = u1, hop_status = 301\<rparr>,
                                \<lparr>hop_from = u1, hop_to = u2, hop_status = 302\<rparr>]\<rparr>, w3)"
    by (simp add: chain_def stops_def)
qed

lemma loop_net_follows:
  "follows loop_net moved_resolve ua t ''http://h/a''
     \<lparr>res_status = 307, res_headers = [(''Location'', ''/a'')], res_body = None\<rparr> ()
     (replicate k \<lparr>hop_from = ''http://h/a'', hop_to = ''http://h/a'', hop_status = 307\<rparr>)
     ''http://h/a''
     \<lparr>res_status = 307, res_headers = [(''Location'', ''/a'')], res_body = None\<rparr> ()"
proof (induction k)
  case 0
  show ?case by (simp add: follows.final)
next
  case (Suc k)
  let ?r = "\<lparr>res_status = 307, res_headers = [(''Location'', ''/a'')], res_body = None\<rparr>"
  have s: "res_status ?r \<in> REDIRECT_STATUSES" by (simp add: REDIRECT_STATUSES_def)
  have l: "headers_get (res_headers ?r) ''location'' = Some ''/a''" by code_simp
  have n: "''/a'' \<noteq> []" by simp
  have r: "moved_resolve ''/a'' ''http://h/a'' = Some ''http://h/a''"
    by (simp add: moved_resolve_def)
  have f: "fetchOnce loop_net ''http://h/a'' ua t () = (Inr ?r, ())"
    by (simp add: fetchOnce_def loop_net_def)
  have "follows loop_net moved_resolve ua t ''http://h/a'' ?r ()
     (\<lparr>hop_from = ''http://h/a'', hop_to = ''http://h/a'', hop_status = res_status ?r\<rparr> #
      replicate k \<lparr>hop_from = ''http://h/a'', hop_to = ''http://h/a'', hop_status = 307\<rparr>)
     ''http://h/a'' ?r ()"
    by (rule follows.redirect[OF s l n r f Suc.IH])
  then show ?case by simp
qed

text \<open>
  Three servers: \<open>moved_net\<close> is such a 301, 302, 200 sequence; \<open>loop_net\<close> redirects for
  ever, and the chain stops after 10 hops with the last redirect response as final;
  \<open>bare_net\<close> answers 301 without \<open>Location\<close>, which is final at once.
\<close>

theorem chain_follows_redirects_witness:
  "chain moved_net moved_resolve 20000 ''http://h/a'' ''bot'' () =
     (Inr \<lparr>ri_res = \<lparr>res_status = 200, res_headers = [], res_body = Some ''ok''\<rparr>,
           ri_finalUrl = ''http://h/c'',
           ri_redirectChain = [\<lparr>hop_from = ''http://h/a'', hop_to = ''http://h/b'', hop_status = 301\<rparr>,
                               \<lparr>hop_from = ''http://h/b'', hop_to = ''http://h/c'', hop_status = 302\<rparr>]\<rparr>, ()) \<and>
   follows moved_net moved_resolve ''bot'' 20000 ''http://h/a''
     \<lparr>res_status = 301, res_headers = [(''location'', ''/b'')], res_body = None\<rparr> ()
     [\<lparr>hop_from = ''http://h/a'', hop_to = ''http://h/b'', hop_status = 301\<rparr>,
      \<lparr>hop_from = ''http://h/b'', hop_to = ''http://h/c'', hop_status = 302\<rparr>]
     ''http://h/c'' \<lparr>res_status = 200, res_headers = [], res_body = Some ''ok''\<rparr> () \<and>
   chain loop_net moved_resolve 20000 ''http://h/a'' ''bot'' () =
     (Inr \<lparr>ri_res = \<lparr>res_status = 307, res_headers = [(''Location'', ''/a'')], res_body = None\<rparr>,
           ri_finalUrl = ''http://h/a'',
           ri_redirectChain =
             replicate 10 \<lparr>hop_from = ''http://h/a'', hop_to = ''http://h/a'', hop_status = 307\<rparr>\<rparr>, ()) \<and>
   chain bare_net moved_resolve 20000 ''http://h/a'' ''bot'' () =
     (Inr \<lparr>ri_res = \<lparr>res_status = 301, res_headers = [], res_body = None\<rparr>,
           ri_finalUrl = ''http://h/a'', ri_redirectChain = []\<rparr>, ())"
proof -
  let ?r0 = "\<lparr>res_status = 301, res_headers = [(''location'', ''/b'')], res_body = None\<rparr>"
  let ?r1 = "\<lparr>res_status = 302, res_headers = [(''Location'', ''/c'')], res_body = None\<rparr>"
  let ?r2 = "\<lparr>res_status = 200, res_headers = [], res_body = Some ''ok''\<rparr>"
  let ?hops = "[\<lparr>hop_from = ''http://h/a'', hop_to = ''http://h/b'', hop_status = 301\<rparr>,
                \<lparr>hop_from = ''http://h/b'', hop_to = ''http://h/c'', hop_status = 302\<rparr>]"
  let ?l = "\<lparr>res_status = 307, res_headers = [(''Location'', ''/a'')], res_body = None\<rparr>"
  let ?b = "\<lparr>res_status = 301, res_headers = [], res_body = None\<rparr>"
  note T = chain_follows_redirects
  have f0: "fetchOnce moved_net ''http://h/a'' ''bot'' 20000 () = (Inr ?r0, ())"
    and f1: "fetchOnce moved_net ''http://h/b'' ''bot'' 20000 () = (Inr ?r1, ())"
    and f2: "fetchOnce moved_net ''http://h/c'' ''bot'' 20000 () = (Inr ?r2, ())"
    by (simp_all add: fetchOnce_def moved_net_def)
  have l0: "headers_get (res_headers ?r0) ''location'' = Some ''/b''"
    and l1: "headers_get (res_headers ?r1) ''location'' = Some ''/c''"
    and lb: "headers_get (res_headers ?b) ''location'' = None"
    by code_simp+
  have rs: "moved_resolve ''/b'' ''http://h/a'' = Some ''http://h/b''"
    "moved_resolve ''/c'' ''http://h/b'' = Some ''http://h/c''"
    by (simp_all add: moved_resolve_def)
  have run: "chain moved_net moved_resolve 20000 ''http://h/a'' ''bot'' () =
     (Inr \<lparr>ri_res = ?r2, ri_finalUrl = ''http://h/c'', ri_redirectChain = ?hops\<rparr>, ())"
    using T[THEN conjunct2, rule_format,
        of moved_net "''http://h/a''" "''bot''" 20000 "()" ?r0 "()" "''/b''" moved_resolve
           "''http://h/b''" ?r1 "()" "''/c''" "''http://h/c''" ?r2 "()"]
      f0 f1 f2 l0 l1 rs by simp
  from T[THEN conjunct1, THEN iffD1, OF run] f0
  have trace: "follows moved_net moved_resolve ''bot'' 20000 ''http://h/a'' ?r0 () ?hops ''http://h/c'' ?r2 ()"
    by simp
  have fl: "fetchOnce loop_net ''http://h/a'' ''bot'' 20000 () = (Inr ?l, ())"
    by (simp add: fetchOnce_def loop_net_def)
  have cap: "chain loop_net moved_resolve 20000 ''http://h/a'' ''bot'' () =
     (Inr \<lparr>ri_res = ?l, ri_finalUrl = ''http://h/a'',
           ri_redirectChain =
             replicate 10 \<lparr>hop_from = ''http://h/a'', hop_to = ''http://h/a'', hop_status = 307\<rparr>\<rparr>, ())"
    using fl loop_net_follows[of "''bot''" 20000 10]
    by (intro T[THEN conjunct1, THEN iffD2]) simp
  have fb: "fetchOnce bare_net ''http://h/a'' ''bot'' 20000 () = (Inr ?b, ())"
    by (simp add: fetchOnce_def bare_net_def)
  have bare: "chain bare_net moved_resolve 20000 ''http://h/a'' ''bot'' () =
     (Inr \<lparr>ri_res = ?b, ri_finalUrl = ''http://h/a'', ri_redirectChain = []\<rparr>, ())"
    using fb lb by (intro T[THEN conjunct1, THEN iffD2]) (simp add: follows.final stops_def)
  from run trace cap bare show ?thesis by simp
qed


section \<open>The user-agent fallback\<close>

text \<open>
  Claim C3. With \<open>r1\<close> the result of the first chain (caller's user agent): if it completes
  with a final status in 403, 406, 409, 410, 429, 451, 503 and the caller's agent is not the
  browser fallback, the whole chain is fetched again with the fallback agent, and its result
  is returned, or \<open>r1\<close> when the retry throws; if the first chain throws and the agent is not
  the fallback, the result is that of one chain with the fallback agent; if the first
  chain throws and the agent is the fallback, the fetch fails.
\<close>

theorem fetchWithRedirects_fallback:
  "(chain net resolve t url ua w = (Inr r1, w1) \<and> res_status (ri_res r1) \<in> BLOCKED_STATUSES \<and>
    ua \<noteq> BROWSER_UA \<and> chain net resolve t url BROWSER_UA w1 = (Inr r2, w2) \<longrightarrow>
      fetchWithRedirects net resolve url ua t w = (Inr r2, w2)) \<and>
   (chain net resolve t url ua w = (Inr r1, w1) \<and> res_status (ri_res r1) \<in> BLOCKED_STATUSES \<and>
    ua \<noteq> BROWSER_UA \<and> chain net resolve t url BROWSER_UA w1 = (Inl e2, w2) \<longrightarrow>
      fetchWithRedirects net resolve url ua t w = (Inr r1, w2)) \<and>
   (chain net resolve t url ua w = (Inl e1, w1) \<and> ua \<noteq> BROWSER_UA \<longrightarrow>
      fetchWithRedirects net resolve url ua t w = chain net resolve t url BROWSER_UA w1) \<and>
   (chain net resolve t url BROWSER_UA w = (Inl e1, w1) \<longrightarrow>
      fetchWithRedirects net resolve url BROWSER_UA t w = (Inl FetchFailed, w1))"
  by (simp add: fetchWithRedirects_def)

lemma chain_one_response:
  "fetchOnce net url ua t w = (Inr res, w') \<Longrightarrow> res_status res \<notin> REDIRECT_STATUSES \<Longrightarrow>
   chain net resolve t url ua w = (Inr \<lparr>ri_res = res, ri_finalUrl = url, ri_redirectChain = []\<rparr>, w')"
  by (simp add: chain_def chain_loop_final del: chain_loop.simps)

lemma audit_loop_final:
  "res_status res \<notin> REDIRECT_STATUSES \<Longrightarrow>
   audit_loop net resolve ua n cur res hops w =
     (Inr \<lparr>ri_res = res, ri_finalUrl = cur, ri_redirectChain = hops\<rparr>, w)"
  by (cases n) auto

lemma lower_user_agent:
  "toLowerCase ''User-Agent'' = ''user-agent''" "toLowerCase ''user-agent'' = ''user-agent''"
  "toLowerCase ''accept'' = ''accept''" "toLowerCase ''accept-language'' = ''accept-language''"
  by code_simp+

lemma chain_throws:
  "fetchOnce net url ua t w = (Inl e, w') \<Longrightarrow> chain net resolve t url ua w = (Inl e, w')"
  by (simp add: chain_def)

lemma ua_header: "headers_get [(''User-Agent'', ua), (''accept'', x), (''accept-language'', y)] ''user-agent'' = Some ua"
  by (simp add: headers_get_def header_values_def lower_user_agent)

lemma ua_header1: "headers_get [(''User-Agent'', ua)] ''user-agent'' = Some ua"
  by (simp add: headers_get_def header_values_def lower_user_agent)

lemma X_not_browser: "''X'' \<noteq> BROWSER_UA"
  by (simp add: BROWSER_UA_def)

text \<open>
  A server that answers 403 to agent X and 200 to the browser agent gives status 200;
  a server that is down for X only is reached by the retry; a server that is down for
  the browser agent fails the fetch; and when the retry after a 403 throws, the 403 stays.
\<close>

theorem fetchWithRedirects_fallback_witness:
  "fetchWithRedirects picky_net moved_resolve ''http://h/a'' ''X'' 20000 () =
     (Inr \<lparr>ri_res = \<lparr>res_status = 200, res_headers = [], res_body = Some ''hello''\<rparr>,
           ri_finalUrl = ''http://h/a'', ri_redirectChain = []\<rparr>, ()) \<and>
   fetchWithRedirects shy_net moved_resolve ''http://h/a'' ''X'' 20000 () =
     (Inr \<lparr>ri_res = \<lparr>res_status = 200, res_headers = [], res_body = Some ''hello''\<rparr>,
           ri_finalUrl = ''http://h/a'', ri_redirectChain = []\<rparr>, ()) \<and>
   fetchWithRedirects down_net moved_resolve ''http://h/a'' BROWSER_UA 20000 () =
     (Inl FetchFailed, ()) \<and>
   fetchWithRedirects moody_net moved_resolve ''http://h/a'' ''X'' 20000 False =
     (Inr \<lparr>ri_res = \<lparr>res_status = 403, res_headers = [], res_body = None\<rparr>,
           ri_finalUrl = ''http://h/a'', ri_redirectChain = []\<rparr>, True)"
proof -
  let ?ok = "\<lparr>res_status = 200, res_headers = [], res_body = Some ''hello''\<rparr>"
  let ?no = "\<lparr>res_status = 403, res_headers = [], res_body = None\<rparr>"
  have p1: "chain picky_net moved_resolve 20000 ''http://h/a'' ''X'' () =
      (Inr \<lparr>ri_res = ?no, ri_finalUrl = ''http://h/a'', ri_redirectChain = []\<rparr>, ())"
    by (rule chain_one_response)
       (simp_all add: fetchOnce_def picky_net_def ua_header X_not_browser REDIRECT_STATUSES_def)
  have p2: "chain picky_net moved_resolve 20000 ''http://h/a'' BROWSER_UA () =
      (Inr \<lparr>ri_res = ?ok, ri_finalUrl = ''http://h/a'', ri_redirectChain = []\<rparr>, ())"
    by (rule chain_one_response)
       (simp_all add: fetchOnce_def picky_net_def ua_header REDIRECT_STATUSES_def)
  have s1: "chain shy_net moved_resolve 20000 ''http://h/a'' ''X'' () = (Inl NetworkError, ())"
    by (rule chain_throws) (simp add: fetchOnce_def shy_net_def ua_header X_not_browser)
  have s2: "chain shy_net moved_resolve 20000 ''http://h/a'' BROWSER_UA () =
      (Inr \<lparr>ri_res = ?ok, ri_finalUrl = ''http://h/a'', ri_redirectChain = []\<rparr>, ())"
    by (rule chain_one_response)
       (simp_all add: fetchOnce_def shy_net_def ua_header REDIRECT_STATUSES_def)
  have d1: "chain down_net moved_resolve 20000 ''http://h/a'' BROWSER_UA () = (Inl NetworkError, ())"
    by (rule chain_throws) (simp add: fetchOnce_def down_net_def)
  have m1: "chain moody_net moved_resolve 20000 ''http://h/a'' ''X'' False =
      (Inr \<lparr>ri_res = ?no, ri_finalUrl = ''http://h/a'', ri_redirectChain = []\<rparr>, True)"
    by (rule chain_one_response) (simp_all add: fetchOnce_def moody_net_def REDIRECT_STATUSES_def)
  have m2: "chain moody_net moved_resolve 20000 ''http://h/a'' BROWSER_UA True = (Inl NetworkError, True)"
    by (rule chain_throws) (simp add: fetchOnce_def moody_net_def)
  have b: "res_status ?no \<in> BLOCKED_STATUSES" by (simp add: BLOCKED_STATUSES_def)
  note T = fetchWithRedirects_fallback
  have "fetchWithRedirects picky_net moved_resolve ''http://h/a'' ''X'' 20000 () =
     (Inr \<lparr>ri_res = ?ok, ri_finalUrl = ''http://h/a'', ri_redirectChain = []\<rparr>, ())"
    using T[THEN conjunct1, rule_format, of picky_net moved_resolve 20000 "''http://h/a''" "''X''" "()"]
      p1 p2 b X_not_browser by simp
  moreover have "fetchWithRedirects shy_net moved_resolve ''http://h/a'' ''X'' 20000 () =
     (Inr \<lparr>ri_res = ?ok, ri_finalUrl = ''http://h/a'', ri_redirectChain = []\<rparr>, ())"
    using T[THEN conjunct2, THEN conjunct2, THEN conjunct1, rule_format,
        of shy_net moved_resolve 20000 "''http://h/a''" "''X''" "()"]
      s1 s2 X_not_browser by simp
  moreover have "fetchWithRedirects down_net moved_resolve ''http://h/a'' BROWSER_UA 20000 () =
     (Inl FetchFailed, ())"
    using T[THEN conjunct2, THEN conjunct2, THEN conjunct2, rule_format,
        of down_net moved_resolve 20000 "''http://h/a''" "()"] d1 by simp
  moreover have "fetchWithRedirects moody_net moved_resolve ''http://h/a'' ''X'' 20000 False =
     (Inr \<lparr>ri_res = ?no, ri_finalUrl = ''http://h/a'', ri_redirectChain = []\<rparr>, True)"
    using T[THEN conjunct2, THEN conjunct1, rule_format,
        of moody_net moved_resolve 20000 "''http://h/a''" "''X''" False _ True]
      m1 m2 b X_not_browser by simp
  ultimately show ?thesis by simp
qed

section \<open>The auditor's fetch against the crawler's\<close>

text \<open>
  Claim C8 as stated fails: against a server that blocks agent X with 403 and serves the
  browser agent, the crawler's fetcher retries and returns 200, the auditor's returns 403.
\<close>

theorem audit_fetch_differs_counterexample:
  "audit_fetchWithRedirects picky_net moved_resolve ''http://h/a'' ''X'' () \<noteq>
   fetchWithRedirects picky_net moved_resolve ''http://h/a'' ''X'' 20000 ()"
proof -
  have a: "audit_fetchWithRedirects picky_net moved_resolve ''http://h/a'' ''X'' () =
     (Inr \<lparr>ri_res = \<lparr>res_status = 403, res_headers = [], res_body = None\<rparr>,
           ri_finalUrl = ''http://h/a'', ri_redirectChain = []\<rparr>, ())"
    by (simp add: audit_fetchWithRedirects_def audit_fetch_def picky_net_def ua_header1
        X_not_browser REDIRECT_STATUSES_def audit_loop_final del: audit_loop.simps)
  have p1: "chain picky_net moved_resolve 20000 ''http://h/a'' ''X'' () =
      (Inr \<lparr>ri_res = \<lparr>res_status = 403, res_headers = [], res_body = None\<rparr>,
            ri_finalUrl = ''http://h/a'', ri_redirectChain = []\<rparr>, ())"
    by (rule chain_one_response)
       (simp_all add: fetchOnce_def picky_net_def ua_header X_not_browser REDIRECT_STATUSES_def)
  have p2: "chain picky_net moved_resolve 20000 ''http://h/a'' BROWSER_UA () =
      (Inr \<lparr>ri_res = \<lparr>res_status = 200, res_headers = [], res_body = Some ''hello''\<rparr>,
            ri_finalUrl = ''http://h/a'', ri_redirectChain = []\<rparr>, ())"
    by (rule chain_one_response)
       (simp_all add: fetchOnce_def picky_net_def ua_header REDIRECT_STATUSES_def)
  have c: "fetchWithRedirects picky_net moved_resolve ''http://h/a'' ''X'' 20000 () =
     (Inr \<lparr>ri_res = \<lparr>res_status = 200, res_headers = [], res_body = Some ''hello''\<rparr>,
           ri_finalUrl = ''http://h/a'', ri_redirectChain = []\<rparr>, ())"
    by (simp add: fetchWithRedirects_def p1 p2 BLOCKED_STATUSES_def X_not_browser)
  show ?thesis unfolding a c by simp
qed

lemma audit_loop_is_chain_loop:
  "\<forall>u w. audit_fetch net u ua w = fetchOnce net u ua t w \<Longrightarrow>
   audit_loop net resolve ua n cur res hops w = chain_loop net resolve t ua n cur res hops w"
  by (induction n arbitrary: cur res hops w) (auto split: option.splits sum.splits prod.splits)

text \<open>
  Claim C8 as amended. The auditor fetches with a function of its own: its requests carry
  the \<open>User-Agent\<close> header only and no timeout, and it makes no retry with another agent.
  Where the servers answer these requests as they answer the crawler's, it returns what ONE
  chain of the crawler's fetcher returns for the caller's agent: the same redirect
  following, final response, final URL and redirect chain.
\<close>

theorem audit_fetch_is_one_chain:
  "audit_fetch net url ua w =
     net \<lparr>req_url = url, req_headers = [(''User-Agent'', ua)], req_redirect = Manual,
          req_timeout = None\<rparr> w \<and>
   ((\<forall>u w. audit_fetch net u ua w = fetchOnce net u ua t w) \<longrightarrow>
      audit_fetchWithRedirects net resolve url ua w = chain net resolve t url ua w)"
proof (intro conjI impI)
  show "audit_fetch net url ua w =
     net \<lparr>req_url = url, req_headers = [(''User-Agent'', ua)], req_redirect = Manual,
          req_timeout = None\<rparr> w"
    by (simp add: audit_fetch_def)
next
  assume same: "\<forall>u w. audit_fetch net u ua w = fetchOnce net u ua t w"
  show "audit_fetchWithRedirects net resolve url ua w = chain net resolve t url ua w"
    unfolding audit_fetchWithRedirects_def chain_def
    using same audit_loop_is_chain_loop[OF same]
    by (auto split: sum.splits prod.splits)
qed

text \<open>The server \<open>moved_net\<close> looks at the URL only.\<close>

theorem audit_fetch_is_one_chain_witness:
  "audit_fetchWithRedirects moved_net moved_resolve ''http://h/a'' ''bot'' () =
     chain moved_net moved_resolve 20000 ''http://h/a'' ''bot'' () \<and>
   fst (audit_fetchWithRedirects moved_net moved_resolve ''http://h/a'' ''bot'' ()) =
     Inr \<lparr>ri_res = \<lparr>res_status = 200, res_headers = [], res_body = Some ''ok''\<rparr>,
          ri_finalUrl = ''http://h/c'',
          ri_redirectChain = [\<lparr>hop_from = ''http://h/a'', hop_to = ''http://h/b'', hop_status = 301\<rparr>,
                              \<lparr>hop_from = ''http://h/b'', hop_to = ''http://h/c'', hop_status = 302\<rparr>]\<rparr>"
proof -
  have same: "\<forall>u w. audit_fetch moved_net u ''bot'' w = fetchOnce moved_net u ''bot'' 20000 w"
    by (simp add: audit_fetch_def fetchOnce_def moved_net_def)
  have eq: "audit_fetchWithRedirects moved_net moved_resolve ''http://h/a'' ''bot'' () =
     chain moved_net moved_resolve 20000 ''http://h/a'' ''bot'' ()"
    using audit_fetch_is_one_chain[THEN conjunct2, THEN mp, OF same] .
  have "chain moved_net moved_resolve 20000 ''http://h/a'' ''bot'' () =
     (Inr \<lparr>ri_res = \<lparr>res_status = 200, res_headers = [], res_body = Some ''ok''\<rparr>,
          ri_finalUrl = ''http://h/c'',
          ri_redirectChain = [\<lparr>hop_from = ''http://h/a'', hop_to = ''http://h/b'', hop_status = 301\<rparr>,
                              \<lparr>hop_from = ''http://h/b'', hop_to = ''http://h/c'', hop_status = 302\<rparr>]\<rparr>, ())"
    by code_simp
  with eq show ?thesis by simp
qed

section \<open>Merging directive sets\<close>

lemma parse_noindex:
  "parseRobotsDirectives (Some ''noindex'') =
     Some \<lparr>noindex = Some True, nofollow = None, noarchive = None, nosnippet = None,
           noimageindex = None, nocache = None\<rparr>"
  by code_simp

lemma parse_nofollow:
  "parseRobotsDirectives (Some ''NoFollow; max-snippet:-1'') =
     Some \<lparr>noindex = None, nofollow = Some True, noarchive = None, nosnippet = None,
           noimageindex = None, nocache = None\<rparr>"
  by code_simp

text \<open>
  Claim C7 fails as stated. Neither \<open>noindex\<close> nor \<open>NoFollow; max-snippet:-1\<close> asserts
  \<open>noarchive\<close>, yet in their merge \<open>noarchive\<close> is present with the value false; so are
  the other three keys that neither input has.
\<close>

theorem mergeRobots_asserts_false_counterexample:
  "noarchive \<lparr>noindex = Some True, nofollow = None, noarchive = None, nosnippet = None,
           noimageindex = None, nocache = None\<rparr> = None \<and>
   noarchive \<lparr>noindex = None, nofollow = Some True, noarchive = None, nosnippet = None,
           noimageindex = None, nocache = None\<rparr> = None \<and>
   mergeRobots (parseRobotsDirectives (Some ''noindex''))
               (parseRobotsDirectives (Some ''NoFollow; max-snippet:-1'')) =
     Some \<lparr>noindex = Some True, nofollow = Some True, noarchive = Some False,
           nosnippet = Some False, noimageindex = Some False, nocache = Some False\<rparr>"
  unfolding parse_noindex parse_nofollow by (simp add: mergeRobots_def truthy_def)

text \<open>
  Claim C7 as amended. The merge is absent only when both inputs are absent objects.
  Otherwise every one of the six keys is present in the result, with the OR of the two
  inputs' values, an absent object or key counting as false: a key that neither input
  asserts comes out as false, not as absent.
\<close>

theorem mergeRobots_total_or:
  "(mergeRobots a b = None \<longleftrightarrow> a = None \<and> b = None) \<and>
   (mergeRobots a b = Some m \<longrightarrow>
      noindex m = Some (truthy a noindex \<or> truthy b noindex) \<and>
      nofollow m = Some (truthy a nofollow \<or> truthy b nofollow) \<and>
      noarchive m = Some (truthy a noarchive \<or> truthy b noarchive) \<and>
      nosnippet m = Some (truthy a nosnippet \<or> truthy b nosnippet) \<and>
      noimageindex m = Some (truthy a noimageindex \<or> truthy b noimageindex) \<and>
      nocache m = Some (truthy a nocache \<or> truthy b nocache)) \<and>
   (truthy a k \<longleftrightarrow> (\<exists>d. a = Some d \<and> k d = Some True))"
  by (auto simp: mergeRobots_def truthy_def split: option.splits if_splits)

theorem mergeRobots_total_or_witness:
  "mergeRobots (Some no_directives) None \<noteq> None \<and>
   noindex (the (mergeRobots (Some no_directives) None)) = Some False \<and>
   nocache (the (mergeRobots (Some no_directives) None)) = Some False"
proof -
  obtain m where m: "mergeRobots (Some no_directives) None = Some m"
    using mergeRobots_total_or[THEN conjunct1, of "Some no_directives" None] by auto
  from mergeRobots_total_or[THEN conjunct2, THEN conjunct1, THEN mp, OF m] m
  show ?thesis by (simp add: truthy_def no_directives_def)
qed

section \<open>The audit of one URL\<close>

lemma set_directive_noindex:
  "noindex (set_directive d t) = (if t = ''noindex'' then Some True else noindex d)"
  by (simp add: set_directive_def)

lemma foldl_set_directive_noindex:
  "noindex (foldl set_directive d ts) =
     (if ''noindex'' \<in> set ts then Some True else noindex d)"
  by (induction ts arbitrary: d) (auto simp: set_directive_noindex)

lemma truthy_parse_noindex:
  "truthy (parseRobotsDirectives (Some v)) noindex \<longleftrightarrow> ''noindex'' \<in> set (directive_tokens v)"
proof (cases "v = []")
  case True
  have "directive_tokens [] = []" by (simp add: directive_tokens_def trim_def toLowerCase_def)
  with True show ?thesis by (simp add: parseRobotsDirectives_def truthy_def)
next
  case False
  then show ?thesis
    by (simp add: parseRobotsDirectives_def truthy_def foldl_set_directive_noindex no_directives_def)
qed

lemma truthy_mergeRobots_noindex:
  "truthy (mergeRobots a b) noindex \<longleftrightarrow> truthy a noindex \<or> truthy b noindex"
  by (auto simp: mergeRobots_def truthy_def split: option.splits)

lemma truthy_foldl_merge:
  "truthy (foldl (\<lambda>acc v. mergeRobots acc (parseRobotsDirectives (Some v))) a vs) noindex \<longleftrightarrow>
     truthy a noindex \<or> (\<exists>v \<in> set vs. ''noindex'' \<in> set (directive_tokens v))"
  by (induction vs arbitrary: a) (auto simp: truthy_mergeRobots_noindex truthy_parse_noindex)

lemma truthy_merge_all:
  "truthy (merge_all vs) noindex \<longleftrightarrow> (\<exists>v \<in> set vs. ''noindex'' \<in> set (directive_tokens v))"
proof -
  have "\<not> truthy None noindex" by (simp add: truthy_def)
  then show ?thesis by (simp add: merge_all_def truthy_foldl_merge)
qed

lemma tokens_noindex: "directive_tokens ''noindex'' = [''noindex'']"
  by code_simp

lemma extract_hreflang_ok:
  "url_parse api baseUrl \<noteq> None \<Longrightarrow> \<exists>hs. extract_hreflang api baseUrl els = Inr hs"
  by (induction els) (auto simp: Let_def split: option.splits sum.splits)

lemma extractHtmlSignals_ok:
  assumes "url_parse api baseUrl \<noteq> None"
  shows "\<exists>sg. extractHtmlSignals load api html baseUrl = Inr sg \<and>
     hs_metaRobots sg = merge_all (map attr_text (robots_metas (load html))) \<and>
     set (hs_issues sg) \<subseteq> {''multiple canonicals''}"
proof -
  obtain hs where "extract_hreflang api baseUrl (alternate_links (load html)) = Inr hs"
    using extract_hreflang_ok[OF assms] by blast
  moreover have "\<exists>c. extract_canonical api (canonical_links (load html)) baseUrl = Inr c"
    using assms by (cases "canonical_links (load html)") (auto simp: extract_canonical_def Let_def)
  then obtain c where "extract_canonical api (canonical_links (load html)) baseUrl = Inr c" ..
  ultimately show ?thesis by (auto simp: extractHtmlSignals_def Let_def)
qed

lemma audit_response_noindex_meta:
  assumes st: "res_status (ri_res ri) \<noteq> 204"
    and ct: "is_html (headers_get (res_headers (ri_res ri)) ''content-type'')"
    and body: "res_body (ri_res ri) = Some html" "html \<noteq> []"
    and tag: "Some ''noindex'' \<in> set (robots_metas (a_load env html))"
    and nox: "getAllXRobots (res_headers (ri_res ri)) = []"
    and base: "url_parse (a_api env) (ri_finalUrl ri) \<noteq> None"
  shows "\<exists>r. audit_response env rawUrl ri = Inr r \<and> a_url r = rawUrl \<and>
      meta (a_noindex r) \<and> \<not> header (a_noindex r) \<and>
      ''conflicting noindex between meta and header'' \<in> set (a_issues r)"
proof -
  obtain sg where sg: "extractHtmlSignals (a_load env) (a_api env) html (ri_finalUrl ri) = Inr sg"
    and mr: "hs_metaRobots sg = merge_all (map attr_text (robots_metas (a_load env html)))"
    using extractHtmlSignals_ok[OF base] by blast
  have "''noindex'' \<in> set (map attr_text (robots_metas (a_load env html)))"
    using tag by (force simp: attr_text_def)
  then have m: "truthy (hs_metaRobots sg) noindex"
    unfolding mr truthy_merge_all using tokens_noindex by force
  have h: "\<not> truthy (merge_all (getAllXRobots (res_headers (ri_res ri)))) noindex"
    by (simp add: nox truthy_merge_all)
  show ?thesis
    using st ct body sg m h by (simp add: audit_response_def Let_def)
qed

text \<open>
  Claim C6 fails as stated. Auditing a page whose HTML has the robots meta tag \<open>noindex\<close>
  and whose response has no \<open>X-Robots-Tag\<close> header gives \<open>noindex.meta\<close> true and
  \<open>noindex.header\<close> false, and the issue list holds the conflict issue.
\<close>

theorem audit_noindex_meta_counterexample:
  "getAllXRobots [(''content-type'', ''text/html; charset=utf-8'')] = [] \<and>
   auditIndexability page_env \<lparr>urls = [''http://h/p''], userAgent = None\<rparr> () =
     (Inr [\<lparr>a_url = ''http://h/p'', a_finalUrl = ''http://h/p'', a_status = 200,
            a_contentType = Some ''text/html; charset=utf-8'', a_canonical = None,
            a_metaRobots = Some \<lparr>noindex = Some True, nofollow = Some False,
               noarchive = Some False, nosnippet = Some False, noimageindex = Some False,
               nocache = Some False\<rparr>,
            a_xRobots = None, a_noindex = \<lparr>meta = True, header = False\<rparr>, a_hreflang = [],
            a_issues = [''conflicting noindex between meta and header''],
            a_redirectChain = []\<rparr>], ())"
  by code_simp


text \<open>
  Claim C6 as amended. When the fetched page is parsed as HTML (status not 204, a content
  type containing \<open>text/html\<close>, a non-empty body), has a robots meta tag with content
  \<open>noindex\<close>, and its response has no \<open>X-Robots-Tag\<close> header, the audit result has
  \<open>noindex.meta\<close> true and \<open>noindex.header\<close> false, and the issue "conflicting noindex
  between meta and header" IS emitted: the two flags differ and one of them is true.
\<close>

theorem audit_noindex_meta_conflict:
  assumes "audit_fetchWithRedirects (a_net env) (url_resolve (a_api env)) rawUrl ua w = (Inr ri, w')"
    and "res_status (ri_res ri) \<noteq> 204"
    and "is_html (headers_get (res_headers (ri_res ri)) ''content-type'')"
    and "res_body (ri_res ri) = Some html" and "html \<noteq> []"
    and "Some ''noindex'' \<in> set (robots_metas (a_load env html))"
    and "getAllXRobots (res_headers (ri_res ri)) = []"
    and "url_parse (a_api env) (ri_finalUrl ri) \<noteq> None"
  shows "\<exists>r. audit_task env rawUrl ua w = (Inr r, w') \<and> a_url r = rawUrl \<and>
      meta (a_noindex r) \<and> \<not> header (a_noindex r) \<and>
      ''conflicting noindex between meta and header'' \<in> set (a_issues r)"
  using audit_response_noindex_meta[OF assms(2-8), of rawUrl] assms(1)
  by (simp add: audit_task_def)

theorem audit_noindex_meta_conflict_witness:
  "\<exists>r. audit_task page_env ''http://h/p'' ''mcp-crawler'' () = (Inr r, ()) \<and>
      a_url r = ''http://h/p'' \<and> meta (a_noindex r) \<and> \<not> header (a_noindex r) \<and>
      ''conflicting noindex between meta and header'' \<in> set (a_issues r)"
proof -
  let ?res = "\<lparr>res_status = 200, res_headers = [(''content-type'', ''text/html; charset=utf-8'')],
           res_body = Some noindex_page\<rparr>"
  let ?ri = "\<lparr>ri_res = ?res, ri_finalUrl = ''http://h/p'', ri_redirectChain = []\<rparr>"
  have f: "audit_fetchWithRedirects (a_net page_env) (url_resolve (a_api page_env))
      ''http://h/p'' ''mcp-crawler'' () = (Inr ?ri, ())"
    by (simp add: page_env_def audit_fetchWithRedirects_def audit_fetch_def page_net_def
        audit_loop_final REDIRECT_STATUSES_def del: audit_loop.simps)
  have ct: "is_html (headers_get (res_headers (ri_res ?ri)) ''content-type'')"
    by code_simp
  have ne: "noindex_page \<noteq> []" by (simp add: noindex_page_def)
  have tag: "Some ''noindex'' \<in> set (robots_metas (a_load page_env noindex_page))"
    by (simp add: page_env_def page_load_def)
  have nox: "getAllXRobots (res_headers (ri_res ?ri)) = []" by code_simp
  have base: "url_parse (a_api page_env) (ri_finalUrl ?ri) \<noteq> None" by code_simp
  show ?thesis
    using audit_noindex_meta_conflict[OF f _ ct _ ne tag nox base] by simp
qed

section \<open>One result per audited URL\<close>

lemma audit_loop_last_fetch:
  "audit_loop net resolve ua n cur res hops w = (Inr r, w') \<Longrightarrow>
   audit_fetch net cur ua w0 = (Inr res, w) \<Longrightarrow>
   \<exists>w1. audit_fetch net (ri_finalUrl r) ua w1 = (Inr (ri_res r), w')"
proof (induction n arbitrary: cur res hops w w0)
  case 0
  then show ?case by auto
next
  case (Suc n)
  show ?case
  proof (cases "stops res")
    case True
    then have "audit_loop net resolve ua (Suc n) cur res hops w =
        (Inr \<lparr>ri_res = res, ri_finalUrl = cur, ri_redirectChain = hops\<rparr>, w)"
      by (auto simp: stops_def)
    with Suc.prems show ?thesis by auto
  next
    case False
    then obtain loc where red: "res_status res \<in> REDIRECT_STATUSES"
      and loc: "headers_get (res_headers res) ''location'' = Some loc" and ne: "loc \<noteq> []"
      by (auto simp: stops_def)
    from red loc ne Suc.prems(1) obtain nxt res' w1 where
      f: "audit_fetch net nxt ua w = (Inr res', w1)" and
      rec: "audit_loop net resolve ua n nxt res'
         (hops @ [\<lparr>hop_from = cur, hop_to = nxt, hop_status = res_status res\<rparr>]) w1 = (Inr r, w')"
      by (auto split: option.splits sum.splits prod.splits)
    show ?thesis using Suc.IH[OF rec f] .
  qed
qed

lemma audit_final_url_parses:
  assumes "fetch_parses net api"
    and "audit_fetchWithRedirects net resolve url ua w = (Inr r, w')"
  shows "url_parse api (ri_finalUrl r) \<noteq> None"
proof -
  from assms(2) obtain res w1 where f: "audit_fetch net url ua w = (Inr res, w1)"
    and l: "audit_loop net resolve ua 10 url res [] w1 = (Inr r, w')"
    by (auto simp: audit_fetchWithRedirects_def split: sum.splits prod.splits)
  from audit_loop_last_fetch[OF l f] obtain w2 where
    "audit_fetch net (ri_finalUrl r) ua w2 = (Inr (ri_res r), w')" ..
  with assms(1) show ?thesis
    unfolding fetch_parses_def audit_fetch_def by (metis request.select_convs(1))
qed

lemma audit_response_total:
  assumes "url_parse (a_api env) (ri_finalUrl ri) \<noteq> None"
  shows "\<exists>r. audit_response env rawUrl ri = Inr r \<and> a_url r = rawUrl"
proof -
  obtain sg where "extractHtmlSignals (a_load env) (a_api env)
      (case res_body (ri_res ri) of None \<Rightarrow> [] | Some h \<Rightarrow> h) (ri_finalUrl ri) = Inr sg"
    using extractHtmlSignals_ok[OF assms] by blast
  then show ?thesis by (simp add: audit_response_def Let_def)
qed

lemma audit_task_total:
  assumes "fetch_parses (a_net env) (a_api env)"
  shows "\<exists>r w'. audit_task env rawUrl ua w = (Inr r, w') \<and> a_url r = rawUrl"
proof (cases "audit_fetchWithRedirects (a_net env) (url_resolve (a_api env)) rawUrl ua w")
  case (Pair x w')
  show ?thesis
  proof (cases x)
    case (Inl e)
    with Pair show ?thesis by (simp add: audit_task_def fetch_failed_result_def)
  next
    case (Inr ri)
    with Pair audit_final_url_parses[OF assms] have "url_parse (a_api env) (ri_finalUrl ri) \<noteq> None"
      by blast
    from audit_response_total[OF this, of rawUrl] Pair Inr show ?thesis
      by (auto simp: audit_task_def)
  qed
qed

lemma audit_tasks_total:
  assumes "fetch_parses (a_net env) (a_api env)"
  shows "\<exists>rs w'. audit_tasks env ua us w = (Inr rs, w') \<and> map a_url rs = us"
proof (induction us arbitrary: w)
  case Nil
  then show ?case by simp
next
  case (Cons u us)
  obtain r w1 where t: "audit_task env u ua w = (Inr r, w1)" "a_url r = u"
    using audit_task_total[OF assms] by blast
  obtain rs w2 where "audit_tasks env ua us w1 = (Inr rs, w2)" "map a_url rs = us"
    using Cons.IH by blast
  with t show ?case by simp
qed

lemma audit_tasks_nth:
  "audit_tasks env ua us w = (Inr rs, w') \<Longrightarrow> i < length us \<Longrightarrow>
   fst (audit_task env (us ! i) ua (world_before env ua us w i)) = Inr (rs ! i)"
proof (induction us arbitrary: w rs i)
  case Nil
  then show ?case by simp
next
  case (Cons u us)
  from Cons.prems(1) obtain r w1 rs' where
    t: "audit_task env u ua w = (Inr r, w1)" and
    rest: "audit_tasks env ua us w1 = (Inr rs', w')" and rs: "rs = r # rs'"
    by (auto split: prod.splits sum.splits)
  show ?case
  proof (cases i)
    case 0
    with t rs show ?thesis by (simp add: world_before_def)
  next
    case (Suc j)
    have "world_before env ua (u # us) w (Suc j) = world_before env ua us w1 j"
      using t by (simp add: world_before_def split: prod.splits sum.splits)
    with Cons.IH[OF rest, of j] Cons.prems(2) Suc rs show ?thesis by simp
  qed
qed

text \<open>
  Claim C10. With a valid concurrency limit, and a network that answers only requests
  whose URL parses, \<open>auditIndexability\<close> returns, and returns exactly one result per
  input URL in the order of the input: the \<open>i\<close>-th result carries the \<open>i\<close>-th URL. A URL
  whose fetch fails keeps its position, with status 0 and the single issue "fetch failed".
\<close>

theorem auditIndexability_one_result_per_url:
  assumes "1 \<le> MAX_CONCURRENCY env" and "fetch_parses (a_net env) (a_api env)"
    and "ua = (case userAgent input of None \<Rightarrow> DEFAULT_UA env | Some u \<Rightarrow> u)"
  shows "\<exists>results w'. auditIndexability env input w = (Inr results, w') \<and>
     length results = length (urls input) \<and>
     (\<forall>i < length (urls input).
        a_url (results ! i) = urls input ! i \<and>
        ((\<exists>e w2. audit_fetchWithRedirects (a_net env) (url_resolve (a_api env)) (urls input ! i) ua
                   (world_before env ua (urls input) w i) = (Inl e, w2)) \<longrightarrow>
         a_status (results ! i) = 0 \<and> a_issues (results ! i) = [''fetch failed'']))"
proof -
  obtain rs w' where run: "audit_tasks env ua (urls input) w = (Inr rs, w')"
    and m: "map a_url rs = urls input"
    using audit_tasks_total[OF assms(2)] by blast
  have len: "length rs = length (urls input)" using m by (metis length_map)
  have "a_url (rs ! i) = urls input ! i" if "i < length (urls input)" for i
    using m that len by (metis nth_map)
  moreover have "a_status (rs ! i) = 0 \<and> a_issues (rs ! i) = [''fetch failed'']"
    if "i < length (urls input)"
      and "audit_fetchWithRedirects (a_net env) (url_resolve (a_api env)) (urls input ! i) ua
                   (world_before env ua (urls input) w i) = (Inl e, w2)" for i e w2
  proof -
    have "rs ! i = fetch_failed_result (urls input ! i)"
      using audit_tasks_nth[OF run that(1)] that(2) by (simp add: audit_task_def)
    then show ?thesis by (simp add: fetch_failed_result_def)
  qed
  ultimately show ?thesis
    using run len assms(1,3) by (auto simp: auditIndexability_def Let_def)
qed

text \<open>Two URLs audited, one that the server moves and serves, one that it does not answer.\<close>

theorem auditIndexability_one_result_per_url_witness:
  "\<exists>results. fst (auditIndexability moved_env \<lparr>urls = [''http://h/a'', ''http://h/x''], userAgent = None\<rparr> ())
       = Inr results \<and>
     length results = 2 \<and> a_url (results ! 0) = ''http://h/a'' \<and> a_url (results ! 1) = ''http://h/x'' \<and>
     a_status (results ! 1) = 0"
proof -
  let ?input = "\<lparr>urls = [''http://h/a'', ''http://h/x''], userAgent = None\<rparr>"
  have c: "1 \<le> MAX_CONCURRENCY moved_env" by (simp add: moved_env_def)
  have parses: "mini_parse ''http://h/a'' \<noteq> None" "mini_parse ''http://h/b'' \<noteq> None"
    "mini_parse ''http://h/c'' \<noteq> None"
    by (simp_all add: mini_parse_def parse_after_def Let_def)
  have p: "fetch_parses (a_net moved_env) (a_api moved_env)"
    unfolding fetch_parses_def moved_env_def moved_net_def mini_api_def
    using parses by (auto split: if_splits)
  have u: "''mcp-crawler'' = (case userAgent ?input of None \<Rightarrow> DEFAULT_UA moved_env | Some u \<Rightarrow> u)"
    by (simp add: moved_env_def)
  have fail: "audit_fetchWithRedirects (a_net moved_env) (url_resolve (a_api moved_env)) ''http://h/x''
      ''mcp-crawler'' v = (Inl NetworkError, v)" for v
    by (simp add: audit_fetchWithRedirects_def audit_fetch_def moved_env_def moved_net_def)
  from auditIndexability_one_result_per_url[OF c p u, of "()"]
  obtain results w' where r: "auditIndexability moved_env ?input () = (Inr results, w')"
    and l: "length results = length (urls ?input)"
    and a: "\<forall>i < length (urls ?input). a_url (results ! i) = urls ?input ! i \<and>
        ((\<exists>e w2. audit_fetchWithRedirects (a_net moved_env) (url_resolve (a_api moved_env)) (urls ?input ! i)
             ''mcp-crawler'' (world_before moved_env ''mcp-crawler'' (urls ?input) () i) = (Inl e, w2)) \<longrightarrow>
         a_status (results ! i) = 0 \<and> a_issues (results ! i) = [''fetch failed''])"
    by blast
  from a[rule_format, of 0] a[rule_format, of 1] fail
  have "a_url (results ! 0) = ''http://h/a'' \<and> a_url (results ! 1) = ''http://h/x'' \<and>
     a_status (results ! 1) = 0"
    by simp
  with r l show ?thesis by simp
qed

section \<open>Ignored extensions\<close>

lemma lower_char_slash: "lower_char c = CHR ''/'' \<longleftrightarrow> c = CHR ''/''"
  by (auto simp: lower_char_def split: if_splits)

lemma toLowerCase_append: "toLowerCase (a @ b) = toLowerCase a @ toLowerCase b"
  by (simp add: toLowerCase_def)

lemma toLowerCase_consts:
  "toLowerCase ''.pdf'' = ''.pdf''" "toLowerCase ''.tar.gz'' = ''.tar.gz''"
  by code_simp+

lemma last_toLowerCase: "q \<noteq> [] \<Longrightarrow> last (toLowerCase q) = lower_char (last q)"
  by (simp add: toLowerCase_def last_map)

lemma extname_after_name:
  assumes e: "CHR ''.'' \<notin> set e" "CHR ''/'' \<notin> set e" "e \<noteq> []"
    and q: "q \<noteq> []" "last q \<noteq> CHR ''/''"
  shows "extname (q @ ''.'' @ e) = ''.'' @ e"
proof -
  define p where "p = q @ ''.'' @ e"
  define b where "b = rev (takeWhile (\<lambda>c. c \<noteq> CHR ''/'') (rev q))"
  have "last e \<in> set e" using e(3) by simp
  then have le: "last e \<noteq> CHR ''/''" using e(2) by auto
  have "hd (rev p) = last e" using e(3) by (simp add: p_def hd_rev)
  then have "dropWhile (\<lambda>c. c = CHR ''/'') (rev p) = rev p"
    using le by (simp add: dropWhile_eq_self_iff)
  then have trimmed: "rev (dropWhile (\<lambda>c. c = CHR ''/'') (rev p)) = p" by simp
  obtain q' where qq: "q = q' @ [last q]" using q(1) by (metis append_butlast_last_id)
  have rq: "rev q = last q # rev q'" by (subst qq) simp
  have "takeWhile (\<lambda>c. c \<noteq> CHR ''/'') (rev q) = last q # takeWhile (\<lambda>c. c \<noteq> CHR ''/'') (rev q')"
    unfolding rq using q(2) by simp
  then have "takeWhile (\<lambda>c. c \<noteq> CHR ''/'') (rev q) \<noteq> []" by simp
  then have bne: "b \<noteq> []" by (simp add: b_def)
  have rp: "rev p = (rev e @ ''.'') @ rev q" by (simp add: p_def)
  have "\<And>c. c \<in> set (rev e @ ''.'') \<Longrightarrow> c \<noteq> CHR ''/''" using e(2) by auto
  then have "takeWhile (\<lambda>c. c \<noteq> CHR ''/'') ((rev e @ ''.'') @ rev q) =
        (rev e @ ''.'') @ takeWhile (\<lambda>c. c \<noteq> CHR ''/'') (rev q)"
    by (rule takeWhile_append2)
  then have "takeWhile (\<lambda>c. c \<noteq> CHR ''/'') (rev p) =
        (rev e @ ''.'') @ takeWhile (\<lambda>c. c \<noteq> CHR ''/'') (rev q)"
    by (simp only: rp)
  then have base: "rev (takeWhile (\<lambda>c. c \<noteq> CHR ''/'') (rev p)) = b @ ''.'' @ e"
    by (simp add: b_def)
  have "takeWhile (\<lambda>c. c \<noteq> CHR ''.'') (rev e @ (CHR ''.'' # rev b)) =
        takeWhile (\<lambda>c. c \<noteq> CHR ''.'') (rev e)"
    by (rule takeWhile_tail) simp
  moreover have "takeWhile (\<lambda>c. c \<noteq> CHR ''.'') (rev e) = rev e"
    using e(1) by (auto simp add: takeWhile_eq_all_conv)
  ultimately have after: "rev (takeWhile (\<lambda>c. c \<noteq> CHR ''.'') (rev (b @ ''.'' @ e))) = e"
    by simp
  have len: "length (b @ ''.'' @ e) - length e - 1 = length b" by simp
  have pos: "length b \<noteq> 0" using bne by simp
  have three: "length (b @ ''.'' @ e) \<noteq> length ''..''"
    using bne e(3) by (cases b; cases e) auto
  then have ndd: "b @ ''.'' @ e \<noteq> ''..''" by metis
  have dot: "CHR ''.'' \<in> set (b @ ''.'' @ e)" by simp
  have dr: "drop (length b) (b @ ''.'' @ e) = ''.'' @ e" by simp
  have "extname p = ''.'' @ e"
    unfolding extname_def Let_def trimmed base after len
    by (simp only: dot pos ndd dr not_True_eq_False not_False_eq_True if_False if_True)
  then show ?thesis by (simp only: p_def)
qed

lemma extname_pdf:
  assumes "q \<noteq> []" "last q \<noteq> CHR ''/''"
  shows "extname (toLowerCase (q @ ''.pdf'')) = ''.pdf''"
proof -
  have "toLowerCase q \<noteq> []" using assms(1) by (simp add: toLowerCase_def)
  moreover have "last (toLowerCase q) \<noteq> CHR ''/''"
    using assms by (simp add: last_toLowerCase lower_char_slash)
  ultimately have "extname (toLowerCase q @ ''.'' @ ''pdf'') = ''.'' @ ''pdf''"
    by (intro extname_after_name) auto
  then show ?thesis by (simp add: toLowerCase_append toLowerCase_consts)
qed

lemma extname_tar_gz: "extname (toLowerCase (q @ ''.tar.gz'')) = ''.gz''"
proof -
  have "extname ((toLowerCase q @ ''.tar'') @ ''.'' @ ''gz'') = ''.'' @ ''gz''"
    by (intro extname_after_name) auto
  then show ?thesis by (simp add: toLowerCase_append toLowerCase_consts)
qed

lemma endsWith_tar_gz: "endsWith (toLowerCase (q @ ''.tar.gz'')) ''.tar.gz''"
  by (simp add: endsWith_def toLowerCase_append toLowerCase_consts suffix_def)

lemma has_ignored_simple:
  "hasIgnoredExtension ign u \<longleftrightarrow>
     (let p = toLowerCase (pathname u) in
      ((endsWith p ''.tar.gz'' \<or> endsWith p ''.tar.bz2'' \<or> endsWith p ''.tar.xz'') \<and>
         (''tar.gz'' \<in> set ign \<or> ''tar.bz2'' \<in> set ign \<or> ''tar.xz'' \<in> set ign)) \<or>
      (extname p \<noteq> [] \<and>
        ((if startsWith (extname p) ''.'' then drop 1 (extname p) else extname p) \<in> set ign \<or>
         extname p \<in> set ign)))"
  by (auto simp: hasIgnoredExtension_def Let_def)

text \<open>
  Claim C9 fails as stated: a path that is nothing but \<open>/.pdf\<close> has no extension for
  \<open>path.extname\<close>, so listing \<open>pdf\<close> does not ignore it; and a path ending in \<open>.tar.gz\<close> is
  ignored when only the plain extension \<open>gz\<close> is listed, without the compound form.
\<close>

theorem hasIgnoredExtension_counterexample:
  "endsWith ''/.pdf'' ''.pdf'' \<and> ''pdf'' \<in> set [''pdf''] \<and>
   hasIgnoredExtension [''pdf'']
     \<lparr>protocol = ''https:'', hostname = ''ex.com'', port = [], pathname = ''/.pdf'', query = [], hash = []\<rparr>
     = False \<and>
   endsWith ''/files/a.tar.gz'' ''.tar.gz'' \<and> ''tar.gz'' \<notin> set [''gz''] \<and>
   hasIgnoredExtension [''gz'']
     \<lparr>protocol = ''https:'', hostname = ''ex.com'', port = [], pathname = ''/files/a.tar.gz'', query = [], hash = []\<rparr>
     = True"
  by code_simp

text \<open>
  Claim C9 as amended. \<open>hasIgnoredExtension\<close> returns true for every URL whose path ends in
  \<open>.pdf\<close> after a non-empty file name when \<open>pdf\<close> is in the ignore list. For a URL whose path
  ends in \<open>.tar.gz\<close> it returns true when the compound form \<open>tar.gz\<close> is listed, and also
  when the plain final extension is listed as \<open>gz\<close> or \<open>.gz\<close>; and with an ignore list that
  holds neither \<open>tar.bz2\<close> nor \<open>tar.xz\<close> it returns true only if \<open>tar.gz\<close>, \<open>gz\<close> or \<open>.gz\<close>
  is listed. What it returns for such a path when one of the other two archive forms is
  listed is left open.
\<close>

theorem hasIgnoredExtension_pdf_tar_gz:
  "(pathname u = q @ ''.pdf'' \<and> q \<noteq> [] \<and> last q \<noteq> CHR ''/'' \<and> ''pdf'' \<in> set ignoredExt \<longrightarrow>
      hasIgnoredExtension ignoredExt u) \<and>
   (pathname u = r @ ''.tar.gz'' \<and>
      (''tar.gz'' \<in> set ignoredExt \<or> ''gz'' \<in> set ignoredExt \<or> ''.gz'' \<in> set ignoredExt) \<longrightarrow>
      hasIgnoredExtension ignoredExt u) \<and>
   (pathname u = r @ ''.tar.gz'' \<and> ''tar.bz2'' \<notin> set ignoredExt \<and> ''tar.xz'' \<notin> set ignoredExt \<and>
      hasIgnoredExtension ignoredExt u \<longrightarrow>
      ''tar.gz'' \<in> set ignoredExt \<or> ''gz'' \<in> set ignoredExt \<or> ''.gz'' \<in> set ignoredExt)"
proof (intro conjI impI)
  assume "pathname u = q @ ''.pdf'' \<and> q \<noteq> [] \<and> last q \<noteq> CHR ''/'' \<and> ''pdf'' \<in> set ignoredExt"
  then show "hasIgnoredExtension ignoredExt u"
    unfolding has_ignored_simple Let_def using extname_pdf[of q]
    by (simp add: startsWith_def)
next
  assume "pathname u = r @ ''.tar.gz'' \<and>
      (''tar.gz'' \<in> set ignoredExt \<or> ''gz'' \<in> set ignoredExt \<or> ''.gz'' \<in> set ignoredExt)"
  then show "hasIgnoredExtension ignoredExt u"
    unfolding has_ignored_simple Let_def using extname_tar_gz[of r] endsWith_tar_gz[of r]
    by (auto simp: startsWith_def)
next
  assume "pathname u = r @ ''.tar.gz'' \<and> ''tar.bz2'' \<notin> set ignoredExt \<and> ''tar.xz'' \<notin> set ignoredExt \<and>
      hasIgnoredExtension ignoredExt u"
  then show "''tar.gz'' \<in> set ignoredExt \<or> ''gz'' \<in> set ignoredExt \<or> ''.gz'' \<in> set ignoredExt"
    unfolding has_ignored_simple Let_def using extname_tar_gz[of r]
    by (auto simp: startsWith_def)
qed

theorem hasIgnoredExtension_pdf_tar_gz_witness:
  "hasIgnoredExtension [''png'', ''pdf'']
     \<lparr>protocol = ''https:'', hostname = ''ex.com'', port = [], pathname = ''/docs/a.pdf'', query = [], hash = []\<rparr> \<and>
   hasIgnoredExtension [''tar.gz'']
     \<lparr>protocol = ''https:'', hostname = ''ex.com'', port = [], pathname = ''/files/a.tar.gz'', query = [], hash = []\<rparr> \<and>
   \<not> hasIgnoredExtension [''png'', ''pdf'']
     \<lparr>protocol = ''https:'', hostname = ''ex.com'', port = [], pathname = ''/files/a.tar.gz'', query = [], hash = []\<rparr>"
proof -
  let ?pdf = "\<lparr>protocol = ''https:'', hostname = ''ex.com'', port = [], pathname = ''/docs/a.pdf'', query = [], hash = []\<rparr>"
  let ?tgz = "\<lparr>protocol = ''https:'', hostname = ''ex.com'', port = [], pathname = ''/files/a.tar.gz'', query = [], hash = []\<rparr>"
  note T = hasIgnoredExtension_pdf_tar_gz
  have "hasIgnoredExtension [''png'', ''pdf''] ?pdf"
    using T[THEN conjunct1, of ?pdf "''/docs/a''" "[''png'', ''pdf'']"] by simp
  moreover have "hasIgnoredExtension [''tar.gz''] ?tgz"
    using T[THEN conjunct2, THEN conjunct1, of ?tgz "''/files/a''" "[''tar.gz'']"] by simp
  moreover have "\<not> hasIgnoredExtension [''png'', ''pdf''] ?tgz"
    using T[THEN conjunct2, THEN conjunct2, of ?tgz "''/files/a''" "[''png'', ''pdf'']"] by auto
  ultimately show ?thesis by simp
qed

section \<open>The normalized key\<close>

text \<open>
  Strings that do not parse as a URL: \<open>normalizeForKey\<close> returns them unchanged and does
  not fail, whatever the URL platform and the normaliser, so a second application returns
  the same key.
\<close>

lemma normalizeForKey_unparsable:
  assumes "url_parse api u = None"
  shows "normalizeForKey api normalizeUrl u = Inr u \<and>
     normalize_twice api normalizeUrl u = normalizeForKey api normalizeUrl u"
  using assms by (simp add: normalizeForKey_def normalize_twice_def)

lemma normalizeForKey_unparsable_example:
  "url_parse mini_api ''not a url'' = None \<and>
   normalizeForKey mini_api mini_normalizeUrl ''not a url'' = Inr ''not a url'' \<and>
   normalize_twice mini_api mini_normalizeUrl ''not a url'' = Inr ''not a url''"
proof -
  have p: "url_parse mini_api ''not a url'' = None" by code_simp
  from normalizeForKey_unparsable[OF p, of mini_normalizeUrl] p show ?thesis by simp
qed

text \<open>
  Claim C2. \<open>normalizeForKey\<close> is meant to give the canonical key of a URL, and the options
  it passes are documented as removing \<open>index.html\<close> and the trailing slash. The library
  removes a directory index only when it is the last path component and strips the
  trailing slash afterwards, in one pass. On a path that ends in two index files the key
  therefore still ends in a directory index, and a second application removes it: the
  key of the key differs from the key.
\<close>

theorem normalizeForKey_not_idempotent:
  "normalizeForKey mini_api mini_normalizeUrl ''https://ex.com/a/index.html/index.html'' =
     Inr ''https://ex.com/a/index.html'' \<and>
   normalize_twice mini_api mini_normalizeUrl ''https://ex.com/a/index.html/index.html'' =
     Inr ''https://ex.com/a'' \<and>
   normalize_twice mini_api mini_normalizeUrl ''https://ex.com/a/index.html/index.html'' \<noteq>
     normalizeForKey mini_api mini_normalizeUrl ''https://ex.com/a/index.html/index.html''"
  by code_simp

section \<open>The inventory throughout a run\<close>

lemma add_keys_distinct: "distinct acc \<Longrightarrow> distinct (add_keys key acc us)"
  by (induction us arbitrary: acc) (auto split: sum.splits)

lemma foldl_add_keys_distinct: "distinct acc \<Longrightarrow> distinct (foldl (add_keys key) acc uss)"
  by (induction uss arbitrary: acc) (auto simp: add_keys_distinct)

lemma fromSitemaps_distinct: "distinct (fromSitemaps env)"
  by (simp add: fromSitemaps_def foldl_add_keys_distinct)

lemma visit_guard_effect:
  assumes "visit_guard env input base s nd = Inr (s1, r)"
  shows "inventoryMap s1 = inventoryMap s \<and> fetchedCount s1 = fetchedCount s \<and>
     seen s \<subseteq> seen s1 \<and> (\<forall>key. r = Some key \<longrightarrow> key \<notin> seen s \<and> key \<in> seen s1)"
  using assms
  by (auto simp: visit_guard_def Let_def split: if_splits sum.splits option.splits)

lemma run_guards_effect:
  "run_guards env input base s nds = Inr (s', started) \<Longrightarrow>
   inventoryMap s' = inventoryMap s \<and> fetchedCount s' = fetchedCount s \<and> seen s \<subseteq> seen s' \<and>
   distinct (map snd started) \<and> set (map snd started) \<subseteq> seen s' - seen s"
proof (induction nds arbitrary: s s' started)
  case Nil
  then show ?case by simp
next
  case (Cons nd nds)
  from Cons.prems obtain s1 r rest where
    g: "visit_guard env input base s nd = Inr (s1, r)" and
    rec: "run_guards env input base s1 nds = Inr (s', rest)" and
    st: "started = (case r of None \<Rightarrow> [] | Some key \<Rightarrow> [(nd, key)]) @ rest"
    by (auto split: sum.splits prod.splits)
  note G = visit_guard_effect[OF g]
  note R = Cons.IH[OF rec]
  show ?case
  proof (cases r)
    case None
    with G R st show ?thesis by auto
  next
    case (Some key)
    with G have "key \<notin> seen s" "key \<in> seen s1" by auto
    with G R st Some show ?thesis by auto
  qed
qed

lemma start_batch_effect:
  assumes "start_batch env input base s = Inr (s', started)"
  shows "inventoryMap s' = inventoryMap s \<and> fetchedCount s' = fetchedCount s \<and> seen s \<subseteq> seen s' \<and>
   distinct (map snd started) \<and> set (map snd started) \<subseteq> seen s' - seen s"
  using run_guards_effect[OF assms[unfolded start_batch_def]] by simp

lemma awaiting_started: "awaiting (map (\<lambda>v. (fst v, snd v, AwaitFetch)) started) = map snd started"
  by (induction started) auto

lemma awaiting_remove_fetch:
  "distinct (awaiting fl) \<Longrightarrow> (nd, key, AwaitFetch) \<in> set fl \<Longrightarrow>
   distinct (awaiting (remove1 (nd, key, AwaitFetch) fl)) \<and>
   set (awaiting (remove1 (nd, key, AwaitFetch) fl)) = set (awaiting fl) - {key}"
proof (induction fl)
  case Nil
  then show ?case by simp
next
  case (Cons v fl)
  obtain nd' key' st' where v: "v = (nd', key', st')" by (cases v) auto
  show ?case
  proof (cases "v = (nd, key, AwaitFetch)")
    case True
    with Cons.prems v show ?thesis by auto
  next
    case False
    with Cons.prems have mem: "(nd, key, AwaitFetch) \<in> set fl" by auto
    have d: "distinct (awaiting fl)" using Cons.prems(1) v by (auto split: if_splits)
    note IH = Cons.IH[OF d mem]
    have inaw: "key \<in> set (awaiting fl)" using mem by (induction fl) auto
    show ?thesis
    proof (cases "st' = AwaitFetch")
      case True
      with Cons.prems(1) v inaw have "key' \<noteq> key" by auto
      with False v True IH Cons.prems(1) show ?thesis by auto
    next
      case f: False
      with False v IH show ?thesis by auto
    qed
  qed
qed

lemma awaiting_mem: "(nd, key, AwaitFetch) \<in> set fl \<Longrightarrow> key \<in> set (awaiting fl)"
  by (induction fl) auto

lemma awaiting_remove_text:
  "awaiting (remove1 (nd, key, AwaitText r) fl) = awaiting fl"
proof (induction fl)
  case Nil
  then show ?case by simp
next
  case (Cons v fl)
  obtain nd' key' st' where v: "v = (nd', key', st')" by (cases v) auto
  show ?case
  proof (cases "v = (nd, key, AwaitText r)")
    case True
    then show ?thesis by simp
  next
    case False
    then have "remove1 (nd, key, AwaitText r) (v # fl) = v # remove1 (nd, key, AwaitText r) fl"
      by auto
    then show ?thesis using Cons.IH v by simp
  qed
qed

lemma follow_link_effect:
  "inventoryMap (follow_link env input base nd f s t) = inventoryMap s \<and>
   seen (follow_link env input base nd f s t) = seen s \<and>
   fetchedCount (follow_link env input base nd f s t) = fetchedCount s"
  by (auto simp: follow_link_def Let_def split: option.splits sum.splits)

lemma foldl_follow_link_effect:
  "inventoryMap (foldl (follow_link env input base nd f) s ts) = inventoryMap s \<and>
   seen (foldl (follow_link env input base nd f) s ts) = seen s \<and>
   fetchedCount (foldl (follow_link env input base nd f) s ts) = fetchedCount s"
  by (induction ts arbitrary: s) (simp_all add: follow_link_effect)

lemma visit_links_effect:
  assumes "visit_links env input base s nd r = Inr s'"
  shows "inventoryMap s' = inventoryMap s \<and> seen s' = seen s \<and> fetchedCount s' = fetchedCount s"
proof -
  have "s' = s \<or> (\<exists>f ts. s' = foldl (follow_link env input base nd f) s ts)"
    using assms by (auto simp: visit_links_def Let_def split: if_splits option.splits)
  then show ?thesis using foldl_follow_link_effect by metis
qed


lemma strengthens_refl: "strengthens m m"
  by (simp add: strengthens_def)

lemma register_sitemap_new:
  assumes "keyed m" and "m k = None"
  shows "keyed (register_sitemap m k) \<and> strengthens m (register_sitemap m k) \<and>
     dom (register_sitemap m k) = insert k (dom m)"
  using assms by (auto simp: register_sitemap_def keyed_def strengthens_def)

lemma visit_record_effect:
  assumes rec: "visit_record env s nd key r = Inr s'"
    and k: "keyed (inventoryMap s)"
    and fresh: "key \<notin> set (fromSitemaps env) \<longrightarrow> inventoryMap s key = None"
  shows "keyed (inventoryMap s') \<and> strengthens (inventoryMap s) (inventoryMap s') \<and>
     dom (inventoryMap s') = insert key (dom (inventoryMap s)) \<and> seen s' = seen s \<and>
     fetchedCount s' = fetchedCount s + 1"
proof -
  from rec obtain item where
    s': "s' = s\<lparr>fetchedCount := fetchedCount s + 1, inventoryMap := (inventoryMap s)(key \<mapsto> item)\<rparr>"
    and nk: "i_normalizedUrl item = key"
    and both: "key \<in> set (fromSitemaps env) \<longrightarrow> i_discoveredBy item = Both"
    by (auto simp: visit_record_def Let_def split: sum.splits option.splits if_splits)
  have "strengthens (inventoryMap s) ((inventoryMap s)(key \<mapsto> item))"
    unfolding strengthens_def using both fresh by auto
  moreover have "keyed ((inventoryMap s)(key \<mapsto> item))"
    using k nk by (auto simp: keyed_def)
  ultimately show ?thesis using s' by auto
qed

lemma postpass_update_effect:
  assumes "keyed (inventoryMap s)"
  shows "keyed (inventoryMap (postpass_update env input s k r)) \<and>
     strengthens (inventoryMap s) (inventoryMap (postpass_update env input s k r))"
  using assms by (auto simp: postpass_update_def keyed_def strengthens_def split: option.splits)

lemma crawl_step_preserves:
  assumes inv: "crawl_inv env c" and st: "crawl_step env input base c c'"
  shows "crawl_inv env c' \<and> strengthens (inventoryMap (snd c)) (inventoryMap (snd c'))"
  using st
proof cases
  case (register k ks s)
  from inv register(1) have k: "keyed (inventoryMap s)" and d: "distinct (k # ks)"
    and sub: "set (k # ks) \<subseteq> set (fromSitemaps env)"
    and none: "\<forall>x \<in> set (k # ks). inventoryMap s x = None"
    and dm: "dom (inventoryMap s) \<subseteq> set (fromSitemaps env)"
    by (auto simp: crawl_inv_def Let_def)
  from none have "inventoryMap s k = None" by simp
  note R = register_sitemap_new[OF k this]
  have "\<forall>x \<in> set ks. register_sitemap (inventoryMap s) k x = None"
  proof
    fix x assume "x \<in> set ks"
    with d none have "x \<noteq> k" "inventoryMap s x = None" by auto
    with R show "register_sitemap (inventoryMap s) k x = None" by (metis domIff insert_iff)
  qed
  with R d sub dm register show ?thesis by (auto simp: crawl_inv_def Let_def)
next
  case (registered s)
  with inv show ?thesis by (auto simp: crawl_inv_def Let_def strengthens_refl)
next
  case (batch s s' started)
  note B = start_batch_effect[OF batch(5)]
  from inv batch(1) have k: "keyed (inventoryMap s)"
    and dm: "\<forall>x \<in> dom (inventoryMap s). x \<in> set (fromSitemaps env) \<or> x \<in> seen s"
    by (auto simp: crawl_inv_def Let_def)
  have "\<forall>x \<in> dom (inventoryMap s'). x \<in> set (fromSitemaps env) \<or> (x \<in> seen s' \<and> x \<notin> set (map snd started))"
    using dm B by auto
  with B k batch(1,2) show ?thesis by (auto simp: crawl_inv_def Let_def awaiting_started strengthens_refl)
next
  case (fetch_failed nd key fl s)
  from inv fetch_failed(1) have k: "keyed (inventoryMap s)" and d: "distinct (awaiting fl)"
    and sub: "set (awaiting fl) \<subseteq> seen s"
    and dm: "\<forall>x \<in> dom (inventoryMap s). x \<in> set (fromSitemaps env) \<or> (x \<in> seen s \<and> x \<notin> set (awaiting fl))"
    by (auto simp: crawl_inv_def Let_def)
  note A = awaiting_remove_fetch[OF d fetch_failed(3)]
  from A k sub dm fetch_failed(1,2) show ?thesis
    by (auto simp: crawl_inv_def Let_def strengthens_refl)
next
  case (fetched nd key fl s r s')
  from inv fetched(1) have k: "keyed (inventoryMap s)" and d: "distinct (awaiting fl)"
    and sub: "set (awaiting fl) \<subseteq> seen s"
    and dm: "\<forall>x \<in> dom (inventoryMap s). x \<in> set (fromSitemaps env) \<or> (x \<in> seen s \<and> x \<notin> set (awaiting fl))"
    by (auto simp: crawl_inv_def Let_def)
  note A = awaiting_remove_fetch[OF d fetched(3)]
  have inaw: "key \<in> set (awaiting fl)" by (rule awaiting_mem[OF fetched(3)])
  have fresh: "key \<notin> set (fromSitemaps env) \<longrightarrow> inventoryMap s key = None"
    using dm inaw by (auto simp: domIff)
  note V = visit_record_effect[OF fetched(4) k fresh]
  have "\<forall>x \<in> dom (inventoryMap s'). x \<in> set (fromSitemaps env) \<or>
      (x \<in> seen s' \<and> x \<notin> set (awaiting (remove1 (nd, key, AwaitFetch) fl)))"
    using V A dm sub inaw by auto
  with V A sub fetched(1,2) show ?thesis by (auto simp: crawl_inv_def Let_def)
next
  case (linked nd key r fl s s')
  note L = visit_links_effect[OF linked(4)]
  from inv linked(1) L linked(2) show ?thesis
    by (auto simp: crawl_inv_def Let_def awaiting_remove_text strengthens_refl)
next
  case (crawled s)
  with inv show ?thesis by (auto simp: crawl_inv_def Let_def strengthens_refl)
next
  case (post_failed k ks s)
  with inv show ?thesis by (auto simp: crawl_inv_def Let_def strengthens_refl)
next
  case (post_fetched k ks s r)
  from inv post_fetched(1) have "keyed (inventoryMap s)" by (auto simp: crawl_inv_def Let_def)
  from postpass_update_effect[OF this] post_fetched(1,2) show ?thesis
    by (auto simp: crawl_inv_def Let_def)
next
  case (finished s)
  with inv show ?thesis by (auto simp: crawl_inv_def Let_def strengthens_refl)
qed

lemma crawl_reach_inv: "crawl_reach env input base c \<Longrightarrow> crawl_inv env c"
proof (induction rule: crawl_reach.induct)
  case start
  show ?case
    by (simp add: crawl_inv_def initial_state_def keyed_def fromSitemaps_distinct)
next
  case (step c c')
  then show ?case using crawl_step_preserves by blast
qed

text \<open>
  Claim C4. In every configuration a run reaches, and after every step it takes from
  there (registering a sitemap key, a visit recording its response, a post-pass update,
  or any other step), each inventory entry is stored under its own normalized key, one
  entry per key; every entry that existed before the step still exists, and its
  provenance is what it was or \<open>both\<close>. In particular an entry that was \<open>both\<close> is never
  \<open>html\<close> or \<open>sitemap\<close> afterwards.
\<close>

theorem inventory_one_per_key_provenance_monotone:
  assumes "crawl_reach env input base (ph, s)"
    and "crawl_step env input base (ph, s) (ph', s')"
  shows "keyed (inventoryMap s) \<and> keyed (inventoryMap s') \<and>
     strengthens (inventoryMap s) (inventoryMap s') \<and>
     (\<forall>k it. inventoryMap s k = Some it \<and> i_discoveredBy it = Both \<longrightarrow>
        (\<exists>it'. inventoryMap s' k = Some it' \<and> i_discoveredBy it' = Both))"
proof -
  have i: "crawl_inv env (ph, s)" by (rule crawl_reach_inv[OF assms(1)])
  from crawl_step_preserves[OF i assms(2)]
  have i': "crawl_inv env (ph', s')" and m: "strengthens (inventoryMap s) (inventoryMap s')"
    by simp_all
  have "\<forall>k it. inventoryMap s k = Some it \<and> i_discoveredBy it = Both \<longrightarrow>
        (\<exists>it'. inventoryMap s' k = Some it' \<and> i_discoveredBy it' = Both)"
    using m unfolding strengthens_def by metis
  with i i' m show ?thesis by (simp add: crawl_inv_def Let_def)
qed



section \<open>Evaluating a crawl of the example site\<close>


lemmas eval_string = lower_char_def toLowerCase_def Let_def
lemmas eval_mini = mini_api_def mini_parse_def parse_after_def parse_query_def mini_href_def
  mini_normalizeUrl_def is_directory_index_def

lemma visit_guard_pass:
  assumes "fetchedCount s < maxPages env input" and "keyOf env u = Inr key" and "key \<notin> seen s"
    and "url_parse (c_api env) u = Some target"
    and "isInternal base target (ci_includeSubdomains input)"
    and "\<not> hasIgnoredExtension (c_ignoredExt env) target" and "\<not> d_respectRobots env"
  shows "visit_guard env input base s (u, d) = Inr (s\<lparr>seen := insert key (seen s)\<rparr>, Some key)"
  using assms by (simp add: visit_guard_def)

lemma page_net_fetch:
  "fetchWithRedirects page_net resolve u ua t w =
     (Inr \<lparr>ri_res = \<lparr>res_status = 200,
                       res_headers = [(''content-type'', ''text/html; charset=utf-8'')],
                       res_body = Some noindex_page\<rparr>,
           ri_finalUrl = u, ri_redirectChain = []\<rparr>, w)"
  by (simp add: fetchWithRedirects_def chain_def fetchOnce_def page_net_def chain_loop_final
      REDIRECT_STATUSES_def BLOCKED_STATUSES_def del: chain_loop.simps)

lemma visit_links_no_anchors:
  "anchors (c_load env (case res_body (ri_res r) of None \<Rightarrow> [] | Some h \<Rightarrow> h)) = [] \<Longrightarrow>
   visit_links env input base s nd r = Inr s"
  by (simp add: visit_links_def Let_def)

lemma visit_record_plain:
  assumes "fromSitemaps env = []" and "keyOf env (ri_finalUrl r) = Inr fk"
  shows "\<exists>m. visit_record env s nd key r = Inr (s\<lparr>fetchedCount := fetchedCount s + 1, inventoryMap := m\<rparr>)"
  using assms by (auto simp: visit_record_def Let_def split: option.splits)

lemma example_parse:
  "mini_parse ''https://example.com/'' = Some example_base"
  "mini_parse ''https://example.com'' = Some example_base"
  "mini_parse ''https://www.example.com/'' = Some (example_base\<lparr>hostname := ''www.example.com''\<rparr>)"
  "mini_parse ''https://www.example.com'' = Some (example_base\<lparr>hostname := ''www.example.com''\<rparr>)"
  by (simp_all add: mini_parse_def parse_after_def example_base_def parse_query_def eval_string)

lemma example_normalize:
  "mini_normalizeUrl ''https://example.com/'' = Inr ''https://example.com''"
  "mini_normalizeUrl ''https://www.example.com/'' = Inr ''https://www.example.com''"
  by (simp_all add: mini_normalizeUrl_def example_parse example_base_def mini_href_def
      is_directory_index_def Let_def)

lemma example_keys:
  "normalizeForKey mini_api mini_normalizeUrl ''https://example.com/'' = Inr ''https://example.com/''"
  "normalizeForKey mini_api mini_normalizeUrl ''https://www.example.com/'' = Inr ''https://www.example.com/''"
  by (simp_all add: normalizeForKey_def mini_api_def example_parse example_base_def mini_href_def
      stripTrackingParams_def example_normalize eval_string)

lemma example_internal:
  "isInternal example_base example_base True"
  "isInternal example_base (example_base\<lparr>hostname := ''www.example.com''\<rparr>) True"
  by (simp_all add: isInternal_def sameETLD1_def example_base_def last_two_def eval_string)

lemma example_not_ignored:
  "\<not> hasIgnoredExtension [] u"
  by (simp add: hasIgnoredExtension_def Let_def)

lemma example_seeds:
  "seeds mini_api example_base = [(''https://example.com/'', 0), (''https://www.example.com/'', 0)]"
  by (simp add: seeds_def mini_api_def mini_href_def example_base_def startsWith_def)


lemma sitemap_env_fields:
  "c_api sitemap_env = mini_api" "c_normalizeUrl sitemap_env = mini_normalizeUrl"
  "c_ignoredExt sitemap_env = []" "\<not> d_respectRobots sitemap_env"
  "d_maxConcurrency sitemap_env = 6" "collected sitemap_env = [[''https://example.com/'']]"
  by (simp_all add: sitemap_env_def open_env_def)

text \<open>
  On the site with the sitemap: the key of the start URL is registered from the sitemap,
  the first batch starts both seeds, and the visit of the start URL records its response;
  the entry, \<open>sitemap\<close> before that step, is \<open>both\<close> after it.
\<close>

theorem inventory_one_per_key_provenance_monotone_witness:
  "keyed (inventoryMap started_state) \<and> keyed (inventoryMap recorded_state) \<and>
   strengthens (inventoryMap started_state) (inventoryMap recorded_state) \<and>
   map_option i_discoveredBy (inventoryMap started_state ''https://example.com/'') = Some Sitemap \<and>
   map_option i_discoveredBy (inventoryMap recorded_state ''https://example.com/'') = Some Both"
proof -
  let ?env = sitemap_env and ?input = one_page_input and ?base = example_base
  let ?home = "''https://example.com/''" and ?www = "''https://www.example.com/''"
  let ?s0 = "initial_state mini_api example_base"
  let ?fl = "[((?home, 0::int), ?home, AwaitFetch), ((?www, 0), ?www, AwaitFetch)]"
  note F = sitemap_env_fields
  have mp: "maxPages ?env ?input = 1" by (simp add: maxPages_def one_page_input_def)
  have sub: "ci_includeSubdomains ?input" and start: "ci_startUrl ?input = ?home"
    by (simp_all add: one_page_input_def)
  have keys: "keyOf ?env ?home = Inr ?home" "keyOf ?env ?www = Inr ?www"
    by (simp_all add: keyOf_def F example_keys)
  have parse: "url_parse mini_api ?home = Some ?base"
    "url_parse mini_api ?www = Some (?base\<lparr>hostname := ''www.example.com''\<rparr>)"
    by (simp_all add: mini_api_def example_parse)
  have fs: "fromSitemaps ?env = [?home]" by (simp add: fromSitemaps_def F keys)
  have r0: "crawl_reach ?env ?input ?base (Registering [?home], ?s0)"
    using crawl_reach.start[of ?env ?input ?base] by (simp add: fs F start parse)
  have r1: "crawl_reach ?env ?input ?base (Registering [], registered_state)"
    unfolding registered_state_def by (rule crawl_reach.step[OF r0 crawl_step.register])
  have r2: "crawl_reach ?env ?input ?base (Crawling [], registered_state)"
    by (rule crawl_reach.step[OF r1 crawl_step.registered])
  have rs: "queue registered_state = [(?home, 0), (?www, 0)]" "seen registered_state = {}"
    "fetchedCount registered_state = 0"
    by (simp_all add: registered_state_def initial_state_def example_seeds)
  define s2 where "s2 = registered_state\<lparr>queue := [], seen := {?home}\<rparr>"
  have g1: "visit_guard ?env ?input ?base (registered_state\<lparr>queue := []\<rparr>) (?home, 0) = Inr (s2, Some ?home)"
    using visit_guard_pass[of "registered_state\<lparr>queue := []\<rparr>" ?env ?input ?home ?home ?base ?base 0]
    by (simp add: s2_def rs mp keys parse sub F example_internal example_not_ignored)
  have g2: "visit_guard ?env ?input ?base s2 (?www, 0) = Inr (started_state, Some ?www)"
    using visit_guard_pass[of s2 ?env ?input ?www ?www "?base\<lparr>hostname := ''www.example.com''\<rparr>" ?base 0]
    by (simp add: s2_def started_state_def rs mp keys parse sub F example_internal example_not_ignored)
  have sb: "start_batch ?env ?input ?base registered_state =
      Inr (started_state, [((?home, 0), ?home), ((?www, 0), ?www)])"
    by (simp add: start_batch_def F rs g1 g2)
  have q: "queue registered_state \<noteq> []" and f: "fetchedCount registered_state < maxPages ?env ?input"
    by (simp_all add: rs mp)
  have r3: "crawl_reach ?env ?input ?base (Crawling ?fl, started_state)"
    using crawl_reach.step[OF r2 crawl_step.batch[OF q f sb]] by simp
  have before: "map_option i_discoveredBy (inventoryMap started_state ?home) = Some Sitemap"
    by (simp add: started_state_def registered_state_def initial_state_def register_sitemap_def)
  have after: "map_option i_discoveredBy (inventoryMap recorded_state ?home) = Some Both"
    by (simp add: recorded_state_def)
  have ct: "content_type_or_null (ri_res home_response) = Some ''text/html; charset=utf-8''"
    by (simp add: content_type_or_null_def home_response_def headers_get_def header_values_def
        toLowerCase_def lower_char_def)
  have hr: "ri_finalUrl home_response = ?home" "ri_redirectChain home_response = []"
    "res_status (ri_res home_response) = 200"
    by (simp_all add: home_response_def)
  have prev: "inventoryMap started_state ?home \<noteq> None" using before by auto
  have vr: "visit_record ?env started_state (?home, 0) ?home home_response = Inr recorded_state"
    using prev unfolding visit_record_def Let_def
    by (auto simp: fs ct hr recorded_state_def rs started_state_def)
  have mem: "((?home, 0::int), ?home, AwaitFetch) \<in> set ?fl" by simp
  from inventory_one_per_key_provenance_monotone[OF r3 crawl_step.fetched[OF mem vr]] before after
  show ?thesis by simp
qed

section \<open>The page budget\<close>

text \<open>
  Claim C1 at a failing input. With \<open>maxPages\<close> 1 and subdomains included, the two seeds
  (the start URL and its www twin) are in the first batch; both visits pass the budget
  test before either response arrives, both responses are counted, and the run ends with
  two pages fetched.
\<close>

theorem crawl_exceeds_maxPages:
  "maxPages open_env one_page_input = 1 \<and>
   pagesFetched (crawlSite open_env one_page_input ()) = Some 2"
proof -
  let ?env = open_env and ?input = one_page_input and ?base = example_base
  let ?home = "''https://example.com/''" and ?www = "''https://www.example.com/''"
  let ?s1 = "initial_state mini_api ?base"
  have mp: "maxPages ?env ?input = 1" by (simp add: maxPages_def one_page_input_def)
  have api: "c_api ?env = mini_api" and norm: "c_normalizeUrl ?env = mini_normalizeUrl"
    and ign: "c_ignoredExt ?env = []" and rob: "\<not> d_respectRobots ?env"
    and conc: "d_maxConcurrency ?env = 6" and net: "c_net ?env = page_net"
    and load: "c_load ?env = page_load" and coll: "collected ?env = []"
    by (simp_all add: open_env_def)
  have sub: "ci_includeSubdomains ?input" and start: "ci_startUrl ?input = ?home"
    by (simp_all add: one_page_input_def)
  have keys: "keyOf ?env ?home = Inr ?home" "keyOf ?env ?www = Inr ?www"
    by (simp_all add: keyOf_def api norm example_keys)
  have fs: "fromSitemaps ?env = []" by (simp add: fromSitemaps_def coll)
  have parse: "url_parse (c_api ?env) ?home = Some ?base"
    "url_parse (c_api ?env) ?www = Some (?base\<lparr>hostname := ''www.example.com''\<rparr>)"
    by (simp_all add: api mini_api_def example_parse)
  have s1: "queue ?s1 = [(?home, 0), (?www, 0)]" "seen ?s1 = {}" "fetchedCount ?s1 = 0"
    by (simp_all add: initial_state_def example_seeds)
  let ?page = "\<lparr>res_status = 200, res_headers = [(''content-type'', ''text/html; charset=utf-8'')],
                  res_body = Some noindex_page\<rparr>"
  define s2 where "s2 = ?s1\<lparr>queue := [], seen := {?home}\<rparr>"
  define s3 where "s3 = ?s1\<lparr>queue := [], seen := {?www, ?home}\<rparr>"
  have g1: "visit_guard ?env ?input ?base (?s1\<lparr>queue := []\<rparr>) (?home, 0) = Inr (s2, Some ?home)"
    using visit_guard_pass[of "?s1\<lparr>queue := []\<rparr>" ?env ?input ?home ?home ?base ?base 0]
    by (simp add: s2_def s1 mp keys parse sub ign rob example_internal example_not_ignored)
  have g2: "visit_guard ?env ?input ?base s2 (?www, 0) = Inr (s3, Some ?www)"
    using visit_guard_pass[of s2 ?env ?input ?www ?www "?base\<lparr>hostname := ''www.example.com''\<rparr>" ?base 0]
    by (simp add: s2_def s3_def s1 mp keys parse sub ign rob example_internal example_not_ignored)
  have sb: "start_batch ?env ?input ?base ?s1 = Inr (s3, [((?home, 0), ?home), ((?www, 0), ?www)])"
    by (simp add: start_batch_def conc s1 g1 g2)
  have s3: "queue s3 = []" "fetchedCount s3 = 0" by (simp_all add: s3_def s1)
  have noanchors: "anchors (c_load ?env h) = []" for h by (simp add: load page_load_def)
  have "\<exists>m. visit_record ?env s3 (?home, 0) ?home
       \<lparr>ri_res = ?page, ri_finalUrl = ?home, ri_redirectChain = []\<rparr>
      = Inr (s3\<lparr>fetchedCount := fetchedCount s3 + 1, inventoryMap := m\<rparr>)"
    by (rule visit_record_plain[OF fs]) (simp add: keys)
  then obtain m1 where r1: "visit_record ?env s3 (?home, 0) ?home
       \<lparr>ri_res = ?page, ri_finalUrl = ?home, ri_redirectChain = []\<rparr>
      = Inr (s3\<lparr>fetchedCount := fetchedCount s3 + 1, inventoryMap := m1\<rparr>)"
    by blast
  define s4 where "s4 = s3\<lparr>fetchedCount := fetchedCount s3 + 1, inventoryMap := m1\<rparr>"
  have s4: "queue s4 = []" "fetchedCount s4 = 1" by (simp_all add: s4_def s3)
  have "\<exists>m. visit_record ?env s4 (?www, 0) ?www
       \<lparr>ri_res = ?page, ri_finalUrl = ?www, ri_redirectChain = []\<rparr>
      = Inr (s4\<lparr>fetchedCount := fetchedCount s4 + 1, inventoryMap := m\<rparr>)"
    by (rule visit_record_plain[OF fs]) (simp add: keys)
  then obtain m2 where r2: "visit_record ?env s4 (?www, 0) ?www
       \<lparr>ri_res = ?page, ri_finalUrl = ?www, ri_redirectChain = []\<rparr>
      = Inr (s4\<lparr>fetchedCount := fetchedCount s4 + 1, inventoryMap := m2\<rparr>)"
    by blast
  define s5 where "s5 = s4\<lparr>fetchedCount := fetchedCount s4 + 1, inventoryMap := m2\<rparr>"
  have s5: "queue s5 = []" "fetchedCount s5 = 2" by (simp_all add: s5_def s4)
  have rb: "run_batch ?env ?input ?base ?s1 () = (Inr s5, ())"
    by (simp add: run_batch_def sb net page_net_fetch r1[folded s4_def] r2[folded s5_def]
        visit_links_no_anchors noanchors)
  have loop: "bfs ?env ?input ?base ?s1 () = Some (Inr s5, ())"
    by (subst bfs.simps, simp add: s1 mp rb, subst bfs.simps, simp add: s5)
  have tf: "toFetch ?env ?input s5 = []" by (simp add: toFetch_def candidates_def fs)
  have reg: "?s1\<lparr>inventoryMap := foldl register_sitemap (inventoryMap ?s1) (fromSitemaps ?env)\<rparr> = ?s1"
    by (simp add: fs)
  have "crawlSite ?env ?input () = Some (Inr s5, ())"
    unfolding crawlSite_def Let_def
    using parse(1) by (simp add: start conc api reg loop tf)
  then show ?thesis using mp s5 by (simp add: pagesFetched_def)
qed

section \<open>The run in request order is one of the runs\<close>

lemma register_all_reach:
  "crawl_reach env input base (Registering ks, s) \<Longrightarrow>
   crawl_reach env input base
     (Registering [], s\<lparr>inventoryMap := foldl register_sitemap (inventoryMap s) ks\<rparr>)"
proof (induction ks arbitrary: s)
  case Nil
  then show ?case by simp
next
  case (Cons k ks)
  have "crawl_reach env input base
      (Registering ks, s\<lparr>inventoryMap := register_sitemap (inventoryMap s) k\<rparr>)"
    by (rule crawl_reach.step[OF Cons.prems crawl_step.register])
  from Cons.IH[OF this] show ?case by simp
qed

lemma complete_all_reach:
  "complete_all env input base started s w = (Inr s', w') \<Longrightarrow>
   crawl_reach env input base (Crawling (map (\<lambda>v. (fst v, snd v, AwaitFetch)) started), s) \<Longrightarrow>
   crawl_reach env input base (Crawling [], s')"
proof (induction started arbitrary: s w)
  case Nil
  then show ?case by simp
next
  case (Cons v rest)
  obtain nd key where v: "v = (nd, key)" by (cases v) auto
  let ?rest = "map (\<lambda>v. (fst v, snd v, AwaitFetch)) rest"
  have reach: "crawl_reach env input base (Crawling ((nd, key, AwaitFetch) # ?rest), s)"
    using Cons.prems(2) v by simp
  obtain x w1 where f: "fetchWithRedirects (c_net env) (url_resolve (c_api env)) (fst nd)
      (crawl_ua env input) (d_requestTimeoutMs env) w = (x, w1)"
    by (cases "fetchWithRedirects (c_net env) (url_resolve (c_api env)) (fst nd)
      (crawl_ua env input) (d_requestTimeoutMs env) w") auto
  show ?case
  proof (cases x)
    case (Inl e)
    with Cons.prems(1) v f have rec: "complete_all env input base rest s w1 = (Inr s', w')" by simp
    have "crawl_step env input base (Crawling ((nd, key, AwaitFetch) # ?rest), s)
        (Crawling (remove1 (nd, key, AwaitFetch) ((nd, key, AwaitFetch) # ?rest)), s)"
      by (rule crawl_step.fetch_failed) simp
    then have "crawl_reach env input base (Crawling ?rest, s)"
      using crawl_reach.step[OF reach] by simp
    from Cons.IH[OF rec this] show ?thesis .
  next
    case (Inr r)
    with Cons.prems(1) v f obtain s1 s2 where
      vr: "visit_record env s nd key r = Inr s1" and
      vl: "visit_links env input base s1 nd r = Inr s2" and
      rec: "complete_all env input base rest s2 w1 = (Inr s', w')"
      by (auto split: sum.splits)
    have "crawl_step env input base (Crawling ((nd, key, AwaitFetch) # ?rest), s)
        (Crawling ((nd, key, AwaitText r) #
           remove1 (nd, key, AwaitFetch) ((nd, key, AwaitFetch) # ?rest)), s1)"
      by (rule crawl_step.fetched[OF _ vr]) simp
    then have r1: "crawl_reach env input base (Crawling ((nd, key, AwaitText r) # ?rest), s1)"
      using crawl_reach.step[OF reach] by simp
    have "crawl_step env input base (Crawling ((nd, key, AwaitText r) # ?rest), s1)
        (Crawling (remove1 (nd, key, AwaitText r) ((nd, key, AwaitText r) # ?rest)), s2)"
      by (rule crawl_step.linked[OF _ vl]) simp
    then have "crawl_reach env input base (Crawling ?rest, s2)"
      using crawl_reach.step[OF r1] by simp
    from Cons.IH[OF rec this] show ?thesis .
  qed
qed

lemma run_batch_reach:
  assumes "run_batch env input base s w = (Inr s', w')"
    and "queue s \<noteq> []" and "fetchedCount s < maxPages env input"
    and "crawl_reach env input base (Crawling [], s)"
  shows "crawl_reach env input base (Crawling [], s')"
proof -
  from assms(1) obtain s1 started where
    sb: "start_batch env input base s = Inr (s1, started)" and
    ca: "complete_all env input base started s1 w = (Inr s', w')"
    by (auto simp: run_batch_def split: sum.splits prod.splits)
  have "crawl_reach env input base (Crawling (map (\<lambda>v. (fst v, snd v, AwaitFetch)) started), s1)"
    by (rule crawl_reach.step[OF assms(4) crawl_step.batch[OF assms(2,3) sb]])
  from complete_all_reach[OF ca this] show ?thesis .
qed

lemma bfs_reach:
  assumes "bfs env input base s w = Some y"
  shows "\<forall>s' w'. y = (Inr s', w') \<longrightarrow> crawl_reach env input base (Crawling [], s) \<longrightarrow>
      crawl_reach env input base (PostPass (toFetch env input s'), s')"
proof (rule bfs.raw_induct[where P = "\<lambda>env input base s w y.
      \<forall>s' w'. y = (Inr s', w') \<longrightarrow> crawl_reach env input base (Crawling [], s) \<longrightarrow>
        crawl_reach env input base (PostPass (toFetch env input s'), s')", OF _ assms], goal_cases)
  case (1 loop env input base s w y)
  show ?case
  proof (cases "queue s \<noteq> [] \<and> fetchedCount s < maxPages env input")
    case False
    with 1(2) have y: "y = (Inr s, w)" by simp
    show ?thesis
      using y crawl_reach.step[OF _ crawl_step.crawled[OF False]] by auto
  next
    case True
    show ?thesis
    proof (intro allI impI)
      fix s' w'
      assume y: "y = (Inr s', w')" and reach: "crawl_reach env input base (Crawling [], s)"
      from True 1(2) y obtain s1 w1 where
        rb: "run_batch env input base s w = (Inr s1, w1)" and
        rec: "loop env input base s1 w1 = Some (Inr s', w')"
        by (auto split: prod.splits sum.splits)
      have "crawl_reach env input base (Crawling [], s1)"
        using run_batch_reach[OF rb _ _ reach] True by simp
      with 1(1)[OF rec] show "crawl_reach env input base (PostPass (toFetch env input s'), s')"
        by simp
    qed
  qed
qed

lemma post_all_reach:
  "post_all env input ks s w = (s', w') \<Longrightarrow>
   crawl_reach env input base (PostPass ks, s) \<Longrightarrow>
   crawl_reach env input base (Finished, s')"
proof (induction ks arbitrary: s w)
  case Nil
  then show ?case using crawl_reach.step[OF _ crawl_step.finished] by simp
next
  case (Cons k ks)
  obtain x w1 where f: "fetchWithRedirects (c_net env) (url_resolve (c_api env)) k
      (crawl_ua env input) (d_requestTimeoutMs env) w = (x, w1)"
    by (cases "fetchWithRedirects (c_net env) (url_resolve (c_api env)) k
      (crawl_ua env input) (d_requestTimeoutMs env) w") auto
  show ?case
  proof (cases x)
    case (Inl e)
    with Cons.prems(1) f have rec: "post_all env input ks s w1 = (s', w')" by simp
    have "crawl_step env input base (PostPass (k # ks), s) (PostPass (remove1 k (k # ks)), s)"
      by (rule crawl_step.post_failed) simp
    then have "crawl_reach env input base (PostPass ks, s)"
      using crawl_reach.step[OF Cons.prems(2)] by simp
    from Cons.IH[OF rec this] show ?thesis .
  next
    case (Inr r)
    with Cons.prems(1) f have rec: "post_all env input ks (postpass_update env input s k r) w1 = (s', w')"
      by simp
    have "crawl_step env input base (PostPass (k # ks), s)
        (PostPass (remove1 k (k # ks)), postpass_update env input s k r)"
      by (rule crawl_step.post_fetched) simp
    then have "crawl_reach env input base (PostPass ks, postpass_update env input s k r)"
      using crawl_reach.step[OF Cons.prems(2)] by simp
    from Cons.IH[OF rec this] show ?thesis .
  qed
qed

text \<open>What \<open>crawlSite\<close> returns is the state of a finished run of the step relation.\<close>

lemma crawlSite_reach:
  assumes "crawlSite env input w = Some (Inr s, w')"
  shows "\<exists>base. url_parse (c_api env) (ci_startUrl input) = Some base \<and>
     crawl_reach env input base (Finished, s)"
proof -
  from assms obtain base where p: "url_parse (c_api env) (ci_startUrl input) = Some base"
    by (auto simp: crawlSite_def split: option.splits)
  from assms p have c: "1 \<le> d_maxConcurrency env"
    by (auto simp: crawlSite_def split: if_splits)
  let ?s0 = "initial_state (c_api env) base"
  let ?s1 = "?s0\<lparr>inventoryMap := foldl register_sitemap (inventoryMap ?s0) (fromSitemaps env)\<rparr>"
  from assms p c obtain s2 w2 where
    b: "bfs env input base ?s1 w = Some (Inr s2, w2)" and
    pa: "post_all env input (toFetch env input s2) s2 w2 = (s, w')"
    by (auto simp: crawlSite_def Let_def split: option.splits sum.splits prod.splits)
  have "crawl_reach env input base (Registering [], ?s1)"
    by (rule register_all_reach[OF crawl_reach.start[OF p c]])
  then have "crawl_reach env input base (Crawling [], ?s1)"
    by (rule crawl_reach.step[OF _ crawl_step.registered])
  with bfs_reach[OF b] have "crawl_reach env input base (PostPass (toFetch env input s2), s2)"
    by blast
  from post_all_reach[OF pa this] p show ?thesis by blast
qed

lemma toFetch_within_room:
  "int (length (toFetch env input s)) \<le> max 0 (maxPages env input - fetchedCount s)"
  by (simp add: toFetch_def room_def)

section \<open>How far a run can exceed the budget\<close>

lemma run_guards_length:
  "run_guards env input base s nds = Inr (s', started) \<Longrightarrow> length started \<le> length nds"
proof (induction nds arbitrary: s s' started)
  case Nil
  then show ?case by simp
next
  case (Cons nd nds)
  from Cons.prems obtain s1 r rest where
    rec: "run_guards env input base s1 nds = Inr (s', rest)" and
    st: "started = (case r of None \<Rightarrow> [] | Some key \<Rightarrow> [(nd, key)]) @ rest"
    by (auto split: sum.splits prod.splits)
  from Cons.IH[OF rec] st show ?case by (auto split: option.splits)
qed

lemma awaiting_length_remove:
  "(nd, key, AwaitFetch) \<in> set fl \<Longrightarrow>
   Suc (length (awaiting (remove1 (nd, key, AwaitFetch) fl))) = length (awaiting fl)"
proof (induction fl)
  case Nil
  then show ?case by simp
next
  case (Cons v fl)
  obtain nd' key' st' where v: "v = (nd', key', st')" by (cases v) auto
  show ?case
  proof (cases "v = (nd, key, AwaitFetch)")
    case True
    then show ?thesis by simp
  next
    case False
    with Cons.prems have "(nd, key, AwaitFetch) \<in> set fl" by auto
    from Cons.IH[OF this] False v show ?thesis by auto
  qed
qed

lemma budget_step:
  assumes c: "1 \<le> d_maxConcurrency env" and inv: "budget_inv env input c"
    and st: "crawl_step env input base c c'"
  shows "budget_inv env input c'"
  using st
proof cases
  case (register k ks s)
  with inv show ?thesis by (simp add: budget_inv_def Let_def)
next
  case (registered s)
  with inv c show ?thesis by (simp add: budget_inv_def Let_def)
next
  case (batch s s' started)
  note B = start_batch_effect[OF batch(5)]
  have "length started \<le> length (take (nat (d_maxConcurrency env)) (queue s))"
    using run_guards_length batch(5) unfolding start_batch_def by blast
  then have "int (length started) \<le> d_maxConcurrency env" using c by auto
  with B batch(1,2,4) inv show ?thesis
    by (simp add: budget_inv_def Let_def awaiting_started)
next
  case (fetch_failed nd key fl s)
  from awaiting_length_remove[OF fetch_failed(3)] fetch_failed(1,2) inv show ?thesis
    by (auto simp: budget_inv_def Let_def)
next
  case (fetched nd key fl s r s')
  have "fetchedCount s' = fetchedCount s + 1"
    using fetched(4) by (auto simp: visit_record_def Let_def split: sum.splits option.splits if_splits)
  with awaiting_length_remove[OF fetched(3)] fetched(1,2) inv show ?thesis
    by (auto simp: budget_inv_def Let_def)
next
  case (linked nd key r fl s s')
  from visit_links_effect[OF linked(4)] linked(1,2) inv show ?thesis
    by (auto simp: budget_inv_def Let_def awaiting_remove_text)
next
  case (crawled s)
  have "int (length (toFetch env input s)) \<le> max 0 (maxPages env input - fetchedCount s)"
    by (rule toFetch_within_room)
  with crawled inv c show ?thesis by (auto simp: budget_inv_def Let_def)
next
  case (post_failed k ks s)
  then have "length (remove1 k ks) \<le> length ks" by (simp add: length_remove1)
  with post_failed inv show ?thesis by (auto simp: budget_inv_def Let_def)
next
  case (post_fetched k ks s r)
  have "fetchedCount (postpass_update env input s k r) \<le> fetchedCount s + 1"
    "fetchedCount s \<le> fetchedCount (postpass_update env input s k r)"
    by (auto simp: postpass_update_def split: option.splits)
  moreover have "Suc (length (remove1 k ks)) = length ks"
    using post_fetched(3) by (simp add: length_remove1) (metis One_nat_def Suc_pred length_pos_if_in_set)
  ultimately show ?thesis using post_fetched(1,2) inv by (auto simp: budget_inv_def Let_def)
next
  case (finished s)
  with inv show ?thesis by (simp add: budget_inv_def Let_def)
qed

text \<open>
  What the engine does guarantee: no run counts more than \<open>maxPages\<close> plus the
  concurrency limit minus one fetched pages.
\<close>

lemma fetchedCount_bound:
  assumes "crawl_reach env input base (ph, s)"
  shows "fetchedCount s \<le> max 0 (maxPages env input) + d_maxConcurrency env - 1"
proof -
  have "budget_inv env input c \<and> 1 \<le> d_maxConcurrency env"
    if "crawl_reach env input base c" for c
    using that
  proof (induction rule: crawl_reach.induct)
    case start
    then show ?case by (simp add: budget_inv_def initial_state_def)
  next
    case (step c c')
    then show ?case using budget_step by blast
  qed
  from this[OF assms] show ?thesis
    by (auto simp: budget_inv_def Let_def split: phase.splits)
qed

end
